theory Spec2Isabelle
  imports Complex_Main "HOL-Library.Log_Nat"
begin

section \<open>Double-precision arithmetic\<close>

text \<open>
  The program computes on C++ \<^verbatim>\<open>double\<close> values. They are modelled as IEEE 754 binary64
  numbers under the default rounding mode (round to nearest, ties to even), every
  operation rounding its exact result once, as the SSE2 and AVX instructions the program
  is written for do. A finite double is represented by its real value; the two
  infinities and NaN are separate constructors. The two zeros are identified: the
  operations the program uses (\<^verbatim>\<open>+ - * /\<close> by nonzero constants, \<^verbatim>\<open>< >\<close>, \<^verbatim>\<open>fabs\<close>,
  \<^verbatim>\<open>std::max\<close>) do not tell them apart.
\<close>

datatype double = Finite real | PInf | NInf | NaN

text \<open>\<open>flog2 x\<close> is the binary exponent of a nonzero \<open>x\<close>: \<open>2^e \<le> |x| < 2^(e+1)\<close>.\<close>

definition flog2 :: "real \<Rightarrow> int" where
  "flog2 x = (let a = \<bar>x\<bar> in
     if 1 \<le> a then bitlen \<lfloor>a\<rfloor> - 1 else - bitlen (\<lceil>1 / a\<rceil> - 1))"

text \<open>Rounding to the nearest integer, ties to the even one.\<close>

definition rne :: "real \<Rightarrow> int" where
  "rne y = (let f = \<lfloor>y\<rfloor>; d = y - of_int f in
     if d < 1/2 then f else if 1/2 < d then f + 1
     else if even f then f else f + 1)"

text \<open>
  The exponent of the unit in the last place of \<open>x\<close>: 53 significant bits, and the
  subnormal numbers below \<open>2^-1022\<close> share the spacing \<open>2^-1074\<close>.
\<close>

definition ulp_exp :: "real \<Rightarrow> int" where
  "ulp_exp x = max (flog2 x) (- 1022) - 52"

definition round_real :: "real \<Rightarrow> real" where
  "round_real x = of_int (rne (x / 2 powi ulp_exp x)) * 2 powi ulp_exp x"

definition max_double :: real where
  "max_double = (2 ^ 53 - 1) * 2 ^ 971"

definition round_double :: "real \<Rightarrow> double" where
  "round_double x = (let r = round_real x in
     if max_double < r then PInf else if r < - max_double then NInf else Finite r)"

text \<open>The finite doubles are the reals that rounding leaves alone.\<close>

definition representable :: "real \<Rightarrow> bool" where
  "representable x = (round_double x = Finite x)"

fun is_finite :: "double \<Rightarrow> bool" where
  "is_finite (Finite x) = representable x"
| "is_finite _ = False"

fun fneg :: "double \<Rightarrow> double" where
  "fneg (Finite x) = Finite (- x)"
| "fneg PInf = NInf"
| "fneg NInf = PInf"
| "fneg NaN = NaN"

fun fadd :: "double \<Rightarrow> double \<Rightarrow> double" where
  "fadd (Finite x) (Finite y) = round_double (x + y)"
| "fadd NaN _ = NaN"
| "fadd _ NaN = NaN"
| "fadd PInf NInf = NaN"
| "fadd NInf PInf = NaN"
| "fadd PInf _ = PInf"
| "fadd _ PInf = PInf"
| "fadd NInf _ = NInf"
| "fadd _ NInf = NInf"

definition fsub :: "double \<Rightarrow> double \<Rightarrow> double" where
  "fsub a b = fadd a (fneg b)"

text \<open>The sign of a double as \<open>-1\<close>, \<open>0\<close>, \<open>1\<close>; NaN has none.\<close>

fun fsgn :: "double \<Rightarrow> real option" where
  "fsgn (Finite x) = Some (sgn x)"
| "fsgn PInf = Some 1"
| "fsgn NInf = Some (- 1)"
| "fsgn NaN = None"

definition signed_inf :: "real \<Rightarrow> double" where
  "signed_inf s = (if s = 0 then NaN else if 0 < s then PInf else NInf)"

fun fmul :: "double \<Rightarrow> double \<Rightarrow> double" where
  "fmul (Finite x) (Finite y) = round_double (x * y)"
| "fmul a b = (case (fsgn a, fsgn b) of
     (Some s, Some t) \<Rightarrow> signed_inf (s * t) | _ \<Rightarrow> NaN)"

text \<open>
  Division: the program divides by nonzero constants only. With the zeros identified,
  a division of a nonzero number by zero takes the sign of the dividend.
\<close>

fun fdiv :: "double \<Rightarrow> double \<Rightarrow> double" where
  "fdiv (Finite x) (Finite y) = (if y = 0 then signed_inf (sgn x) else round_double (x / y))"
| "fdiv NaN _ = NaN"
| "fdiv _ NaN = NaN"
| "fdiv (Finite x) _ = Finite 0"
| "fdiv PInf (Finite y) = (if y < 0 then NInf else PInf)"
| "fdiv NInf (Finite y) = (if y < 0 then PInf else NInf)"
| "fdiv _ _ = NaN"

text \<open>The comparisons \<^verbatim>\<open><\<close> and \<^verbatim>\<open>>\<close>: false as soon as one side is NaN.\<close>

fun flt :: "double \<Rightarrow> double \<Rightarrow> bool" where
  "flt (Finite x) (Finite y) = (x < y)"
| "flt NaN _ = False"
| "flt _ NaN = False"
| "flt NInf NInf = False"
| "flt NInf _ = True"
| "flt _ NInf = False"
| "flt PInf _ = False"
| "flt _ PInf = True"

definition fgt :: "double \<Rightarrow> double \<Rightarrow> bool" where
  "fgt a b = flt b a"

fun fabs :: "double \<Rightarrow> double" where
  "fabs (Finite x) = Finite \<bar>x\<bar>"
| "fabs PInf = PInf"
| "fabs NInf = PInf"
| "fabs NaN = NaN"

text \<open>\<^verbatim>\<open>std::max(a, b)\<close> is \<^verbatim>\<open>(a < b) ? b : a\<close>.\<close>

definition fmax :: "double \<Rightarrow> double \<Rightarrow> double" where
  "fmax a b = (if flt a b then b else a)"

section \<open>Constants\<close>

text \<open>
  \<^verbatim>\<open>M_PI\<close> comes from \<^verbatim>\<open>math.h\<close>, where it is the decimal literal
  \<^verbatim>\<open>3.14159265358979323846\<close>; the compiler converts it to the nearest double.
\<close>

definition M_PI :: double where
  "M_PI = round_double (314159265358979323846 / 10 ^ 20)"

definition c3 :: double where
  "c3 = fdiv (Finite (- 1)) (fmul (Finite 2) (Finite 3))"

definition c5 :: double where
  "c5 = fdiv (Finite 1) (fmul (fmul (fmul (Finite 2) (Finite 3)) (Finite 4)) (Finite 5))"

definition c7 :: double where
  "c7 = fdiv (Finite (- 1)) (fmul (fmul (fmul (fmul (fmul (Finite 2) (Finite 3)) (Finite 4))
     (Finite 5)) (Finite 6)) (Finite 7))"

definition c9 :: double where
  "c9 = fdiv (Finite 1) (fmul (fmul (fmul (fmul (fmul (fmul (fmul (Finite 2) (Finite 3))
     (Finite 4)) (Finite 5)) (Finite 6)) (Finite 7)) (Finite 8)) (Finite 9))"

definition c11 :: double where
  "c11 = fdiv (Finite (- 1)) (fmul (fmul (fmul (fmul (fmul (fmul (fmul (fmul (fmul (Finite 2)
     (Finite 3)) (Finite 4)) (Finite 5)) (Finite 6)) (Finite 7)) (Finite 8)) (Finite 9))
     (Finite 10)) (Finite 11))"

definition c2 :: double where
  "c2 = fdiv (Finite (- 1)) (Finite 2)"

definition c4 :: double where
  "c4 = fdiv (Finite 1) (fmul (fmul (Finite 2) (Finite 3)) (Finite 4))"

definition c6 :: double where
  "c6 = fdiv (Finite (- 1)) (fmul (fmul (fmul (fmul (Finite 2) (Finite 3)) (Finite 4))
     (Finite 5)) (Finite 6))"

definition c8 :: double where
  "c8 = fdiv (Finite 1) (fmul (fmul (fmul (fmul (fmul (fmul (Finite 2) (Finite 3)) (Finite 4))
     (Finite 5)) (Finite 6)) (Finite 7)) (Finite 8))"

definition c10 :: double where
  "c10 = fdiv (Finite (- 1)) (fmul (fmul (fmul (fmul (fmul (fmul (fmul (fmul (Finite 2)
     (Finite 3)) (Finite 4)) (Finite 5)) (Finite 6)) (Finite 7)) (Finite 8)) (Finite 9))
     (Finite 10))"

section \<open>The evaluation strategies\<close>

text \<open>
  A \<^verbatim>\<open>double*\<close> is modelled by the memory it points into, a function from the index to
  the element; a function that writes through its first argument returns the updated
  memory. A pointer that may be \<^verbatim>\<open>nullptr\<close> is an option, and reading through
  \<^verbatim>\<open>nullptr\<close> is the error \<open>NullDeref\<close>.
\<close>

type_synonym buf = "nat \<Rightarrow> double"

datatype error = NullDeref

text \<open>
  \<^verbatim>\<open>sin4_reference\<close> calls the C library's \<^verbatim>\<open>sin\<close>, which is not part of the
  repository: it is the parameter \<open>psin\<close>.
\<close>

definition sin4_reference :: "(double \<Rightarrow> double) \<Rightarrow> buf \<Rightarrow> buf \<Rightarrow> buf" where
  "sin4_reference psin sinx x = fold (\<lambda>i sinx. sinx(i := psin (x i))) [0..<4] sinx"

text \<open>The cosine branch of \<^verbatim>\<open>sin4_taylor\<close>, up to the multiplication by the sign.\<close>

definition taylor_cos :: "double \<Rightarrow> double" where
  "taylor_cos x1 = (let x0 = Finite 1;
     x2 = fmul x1 x1;
     x4 = fmul x2 x2;
     x6 = fmul x2 x4;
     x8 = fmul x2 x6;
     x10 = fmul x2 x8;
     s = x0;
     s = fadd s (fmul x2 c2);
     s = fadd s (fmul x4 c4);
     s = fadd s (fmul x6 c6);
     s = fadd s (fmul x8 c8);
     s = fadd s (fmul x10 c10)
   in s)"

text \<open>The sine branch of \<^verbatim>\<open>sin4_taylor\<close>, up to the multiplication by the sign.\<close>

definition taylor_sin :: "double \<Rightarrow> double" where
  "taylor_sin x1 = (let
     x2 = fmul x1 x1;
     x3 = fmul x1 x2;
     x5 = fmul x3 x2;
     x7 = fmul x5 x2;
     x9 = fmul x7 x2;
     x11 = fmul x9 x2;
     s = x1;
     s = fadd s (fmul x3 c3);
     s = fadd s (fmul x5 c5);
     s = fadd s (fmul x7 c7);
     s = fadd s (fmul x9 c9);
     s = fadd s (fmul x11 c11)
   in s)"

text \<open>One iteration of the loop of \<^verbatim>\<open>sin4_taylor\<close>: the value stored in \<^verbatim>\<open>sinx[i]\<close>.\<close>

definition sin4_taylor_lane ::
  "buf \<Rightarrow> (nat \<Rightarrow> bool) option \<Rightarrow> (nat \<Rightarrow> bool) option \<Rightarrow> nat \<Rightarrow> error + double" where
  "sin4_taylor_lane x sign_vec sin_cos_vec i =
     (if sin_cos_vec \<noteq> None \<and> the sin_cos_vec i = False then
        (case sign_vec of
           None \<Rightarrow> Inl NullDeref
         | Some sv \<Rightarrow> Inr (fmul (taylor_cos (x i)) (if sv i then Finite 1 else Finite (- 1))))
      else if sin_cos_vec \<noteq> None then
        (case sign_vec of
           None \<Rightarrow> Inl NullDeref
         | Some sv \<Rightarrow> Inr (fmul (taylor_sin (x i)) (if sv i = False then Finite (- 1) else Finite 1)))
      else Inr (fmul (taylor_sin (x i)) (Finite 1)))"

fun sin4_taylor_loop ::
  "nat list \<Rightarrow> buf \<Rightarrow> buf \<Rightarrow> (nat \<Rightarrow> bool) option \<Rightarrow> (nat \<Rightarrow> bool) option \<Rightarrow> error + buf" where
  "sin4_taylor_loop [] sinx x sign_vec sin_cos_vec = Inr sinx"
| "sin4_taylor_loop (i # is) sinx x sign_vec sin_cos_vec =
     (case sin4_taylor_lane x sign_vec sin_cos_vec i of
        Inl e \<Rightarrow> Inl e
      | Inr s \<Rightarrow> sin4_taylor_loop is (sinx(i := s)) x sign_vec sin_cos_vec)"

definition sin4_taylor ::
  "buf \<Rightarrow> buf \<Rightarrow> (nat \<Rightarrow> bool) option \<Rightarrow> (nat \<Rightarrow> bool) option \<Rightarrow> error + buf" where
  "sin4_taylor sinx x sign_vec sin_cos_vec = sin4_taylor_loop [0..<4] sinx x sign_vec sin_cos_vec"

text \<open>
  The packed registers \<^verbatim>\<open>__m256d\<close> and \<^verbatim>\<open>__m128d\<close> are lists of lanes; the Intel
  intrinsics load and store consecutive elements and compute lane by lane.
\<close>

type_synonym lanes = "double list"

definition load_pd :: "nat \<Rightarrow> buf \<Rightarrow> nat \<Rightarrow> lanes" where
  "load_pd n x off = map (\<lambda>j. x (off + j)) [0..<n]"

definition store_pd :: "buf \<Rightarrow> nat \<Rightarrow> lanes \<Rightarrow> buf" where
  "store_pd sinx off v = fold (\<lambda>j sinx. sinx(off + j := v ! j)) [0..<length v] sinx"

definition mul_pd :: "lanes \<Rightarrow> lanes \<Rightarrow> lanes" where
  "mul_pd a b = map2 fmul a b"

definition add_pd :: "lanes \<Rightarrow> lanes \<Rightarrow> lanes" where
  "add_pd a b = map2 fadd a b"

definition set1_pd :: "nat \<Rightarrow> double \<Rightarrow> lanes" where
  "set1_pd n c = replicate n c"

text \<open>What the preprocessor finds: \<^verbatim>\<open>__AVX__\<close>, else \<^verbatim>\<open>__SSE2__\<close>, else neither.\<close>

datatype simd = AVX | SSE2 | NoSIMD

definition sin4_intrin_sse2_step :: "buf \<Rightarrow> nat \<Rightarrow> buf \<Rightarrow> buf" where
  "sin4_intrin_sse2_step x i sinx = (let
     x1 = load_pd 2 x i;
     x2 = mul_pd x1 x1;
     x3 = mul_pd x1 x2;
     s = x1;
     s = add_pd s (mul_pd x3 (set1_pd 2 c3))
   in store_pd sinx i s)"

definition sin4_intrin :: "simd \<Rightarrow> (double \<Rightarrow> double) \<Rightarrow> buf \<Rightarrow> buf \<Rightarrow> buf" where
  "sin4_intrin hw psin sinx x = (case hw of
     AVX \<Rightarrow> (let
       x1 = load_pd 4 x 0;
       x2 = mul_pd x1 x1;
       x3 = mul_pd x1 x2;
       s = x1;
       s = add_pd s (mul_pd x3 (set1_pd 4 c3))
     in store_pd sinx 0 s)
   | SSE2 \<Rightarrow> fold (sin4_intrin_sse2_step x) [0, 2] sinx
   | NoSIMD \<Rightarrow> sin4_reference psin sinx x)"

text \<open>
  Modelled from the spec: the class \<^verbatim>\<open>Vec<double,4>\<close> of \<^verbatim>\<open>intrin-wrapper.h\<close>, which is
  not among the sources. The spec describes it as a data-parallel vector abstraction
  "providing load-aligned, store-aligned, and elementwise arithmetic operations": a
  vector of 4 lanes, its operators working lane by lane, a scalar operand being
  broadcast to every lane.
\<close>

definition vec_load_aligned :: "buf \<Rightarrow> lanes" where
  "vec_load_aligned x = map x [0..<4]"

definition vec_store_aligned :: "lanes \<Rightarrow> buf \<Rightarrow> buf" where
  "vec_store_aligned v sinx = fold (\<lambda>j sinx. sinx(j := v ! j)) [0..<4] sinx"

definition vec_mul :: "lanes \<Rightarrow> lanes \<Rightarrow> lanes" where
  "vec_mul a b = map2 fmul a b"

definition vec_add :: "lanes \<Rightarrow> lanes \<Rightarrow> lanes" where
  "vec_add a b = map2 fadd a b"

definition vec_scale :: "lanes \<Rightarrow> double \<Rightarrow> lanes" where
  "vec_scale a c = map (\<lambda>d. fmul d c) a"

definition sin4_vector :: "buf \<Rightarrow> buf \<Rightarrow> buf" where
  "sin4_vector sinx x = (let
     x1 = vec_load_aligned x;
     x2 = vec_mul x1 x1;
     x3 = vec_mul x1 x2;
     x5 = vec_mul x2 x3;
     x7 = vec_mul x2 x5;
     x9 = vec_mul x2 x7;
     x11 = vec_mul x2 x9;
     s = x1;
     s = vec_add s (vec_scale x3 c3);
     s = vec_add s (vec_scale x5 c5);
     s = vec_add s (vec_scale x7 c7);
     s = vec_add s (vec_scale x9 c9);
     s = vec_add s (vec_scale x11 c11)
   in vec_store_aligned s sinx)"

definition cos4_vector :: "buf \<Rightarrow> buf \<Rightarrow> buf" where
  "cos4_vector cosx x = (let
     one = (\<lambda>j. Finite 1);
     x0 = vec_load_aligned one;
     x1 = vec_load_aligned x;
     x2 = vec_mul x1 x1;
     x4 = vec_mul x2 x2;
     x6 = vec_mul x2 x4;
     x8 = vec_mul x2 x6;
     x10 = vec_mul x2 x8;
     x12 = vec_mul x2 x10;
     s = x0;
     s = vec_add s (vec_add (vec_add (vec_add (vec_add (vec_add x0 (vec_scale x2 c2))
           (vec_scale x4 c4)) (vec_scale x6 c6)) (vec_scale x8 c8)) (vec_scale x10 c10))
   in vec_store_aligned s cosx)"

definition err :: "buf \<Rightarrow> buf \<Rightarrow> nat \<Rightarrow> double" where
  "err x y N = fold (\<lambda>i error. fmax error (fabs (fsub (x i) (y i)))) [0..<N] (Finite 0)"

section \<open>Range reduction\<close>

text \<open>The three objects \<^verbatim>\<open>angle_transform\<close> works on through its pointers.\<close>

record reduction =
  angle :: double
  sign :: bool
  sin_cos :: bool

definition angle_cond :: "reduction \<Rightarrow> bool" where
  "angle_cond s = (fgt (angle s) (fdiv M_PI (Finite 4)) \<or> flt (angle s) (fdiv (fneg M_PI) (Finite 4)))"

definition angle_body :: "reduction \<Rightarrow> reduction" where
  "angle_body s = (let s' =
     (if flt (angle s) (fdiv (fneg M_PI) (Finite 4)) then
        s\<lparr>sign := (if sin_cos s then \<not> sign s else sign s),
          angle := fadd (angle s) (fdiv M_PI (Finite 2))\<rparr>
      else
        s\<lparr>sign := (if sin_cos s then sign s else \<not> sign s),
          angle := fsub (angle s) (fdiv M_PI (Finite 2))\<rparr>)
   in s'\<lparr>sin_cos := \<not> sin_cos s'\<rparr>)"

text \<open>The \<^verbatim>\<open>while\<close> loop; \<open>None\<close> when it runs forever.\<close>

partial_function (option) angle_while :: "reduction \<Rightarrow> reduction option" where
  "angle_while s = (if angle_cond s then angle_while (angle_body s) else Some s)"

definition angle_transform :: "reduction \<Rightarrow> reduction option" where
  "angle_transform s = angle_while (s\<lparr>sin_cos := True, sign := True\<rparr>)"

section \<open>Auxiliary notions for the statements\<close>

text \<open>The comparison \<^verbatim>\<open><=\<close>, used to say that a double lies in a closed interval.\<close>

fun fle :: "double \<Rightarrow> double \<Rightarrow> bool" where
  "fle (Finite x) (Finite y) = (x \<le> y)"
| "fle NaN _ = False"
| "fle _ NaN = False"
| "fle NInf _ = True"
| "fle _ PInf = True"
| "fle _ _ = False"

text \<open>A double is well formed when it is special or a representable number.\<close>

definition wf_double :: "double \<Rightarrow> bool" where
  "wf_double d = (case d of Finite x \<Rightarrow> representable x | _ \<Rightarrow> True)"

text \<open>
  The polynomials as section 4.2 of the specification words them, on doubles, to be
  compared with what the code computes: the
  powers from the ladder \<open>x\<^sup>2\<close>, \<open>x\<^sup>4 = x\<^sup>2 * x\<^sup>2\<close>, \<open>x\<^sup>6 = x\<^sup>2 * x\<^sup>4\<close>, ... (for the sine
  \<open>x\<^sup>3 = x\<^sup>2 * x\<close>, \<open>x\<^sup>5 = x\<^sup>2 * x\<^sup>3\<close>, ...), each multiplied by its coefficient and the
  products added from the lowest degree up.
\<close>

definition spec_cosine_poly :: "double \<Rightarrow> double" where
  "spec_cosine_poly x = (let
     x2 = fmul x x; x4 = fmul x2 x2; x6 = fmul x2 x4; x8 = fmul x2 x6; x10 = fmul x2 x8
   in fadd (fadd (fadd (fadd (fadd (Finite 1) (fmul c2 x2)) (fmul c4 x4)) (fmul c6 x6))
        (fmul c8 x8)) (fmul c10 x10))"

definition spec_sine_poly :: "double \<Rightarrow> double" where
  "spec_sine_poly x = (let
     x2 = fmul x x; x3 = fmul x2 x; x5 = fmul x2 x3; x7 = fmul x2 x5; x9 = fmul x2 x7;
     x11 = fmul x2 x9
   in fadd (fadd (fadd (fadd (fadd x (fmul c3 x3)) (fmul c5 x5)) (fmul c7 x7))
        (fmul c9 x9)) (fmul c11 x11))"

text \<open>The degree-3 truncation \<open>x + c3 * x\<^sup>3\<close>.\<close>

definition spec_sine_poly3 :: "double \<Rightarrow> double" where
  "spec_sine_poly3 x = fadd x (fmul c3 (fmul (fmul x x) x))"

text \<open>The closed interval \<^verbatim>\<open>[-M_PI/4, M_PI/4]\<close> that the loop of \<^verbatim>\<open>angle_transform\<close> tests.\<close>

definition in_range :: "double \<Rightarrow> bool" where
  "in_range a = (fle (fdiv (fneg M_PI) (Finite 4)) a \<and> fle a (fdiv M_PI (Finite 4)))"

text \<open>The values of \<^verbatim>\<open>M_PI/4\<close> and \<^verbatim>\<open>M_PI/2\<close>.\<close>

abbreviation (input) P4r :: real where "P4r \<equiv> 884279719003555 / 2 ^ 50"
abbreviation (input) P2r :: real where "P2r \<equiv> 884279719003555 / 2 ^ 49"

section \<open>Real-valued counterparts\<close>

text \<open>\<open>approx d a e\<close>: the double \<open>d\<close> is finite and within \<open>e\<close> of the real number \<open>a\<close>.\<close>

definition approx :: "double \<Rightarrow> real \<Rightarrow> real \<Rightarrow> bool" where
  "approx d a e = (case d of Finite A \<Rightarrow> \<bar>A - a\<bar> \<le> e | _ \<Rightarrow> False)"

text \<open>The Taylor polynomials over the reals, with the exact coefficients.\<close>

definition sin11 :: "real \<Rightarrow> real" where
  "sin11 x = x - x^3 / 6 + x^5 / 120 - x^7 / 5040 + x^9 / 362880 - x^11 / 39916800"

definition cos10 :: "real \<Rightarrow> real" where
  "cos10 x = 1 - x^2 / 2 + x^4 / 24 - x^6 / 720 + x^8 / 40320 - x^10 / 3628800"

definition sin3 :: "real \<Rightarrow> real" where
  "sin3 x = x - x^3 / 6"

text \<open>
  What a reduction state stands for: the sine or the cosine of its angle, as the selector
  says, negated when the sign flag is false.
\<close>

definition rval :: "real \<Rightarrow> bool \<Rightarrow> bool \<Rightarrow> real" where
  "rval x sg sc = (if sg then 1 else - 1) * (if sc then sin x else cos x)"

definition state_val :: "reduction \<Rightarrow> real" where
  "state_val s = (case angle s of Finite x \<Rightarrow> rval x (sign s) (sin_cos s) | _ \<Rightarrow> 0)"

text \<open>The real value of a finite double.\<close>

fun fval :: "double \<Rightarrow> real" where
  "fval (Finite v) = v"
| "fval _ = 0"

text \<open>
  The reference sine is a parameter: \<open>accurate_at psin e d\<close> says that on the finite double
  \<open>d\<close> it returns a finite double within \<open>e\<close> of the sine of \<open>d\<close>.
\<close>

definition accurate_at :: "(double \<Rightarrow> double) \<Rightarrow> real \<Rightarrow> double \<Rightarrow> bool" where
  "accurate_at psin e d = (case d of
     Finite x \<Rightarrow> (case psin d of Finite y \<Rightarrow> \<bar>y - sin x\<bar> \<le> e | _ \<Rightarrow> False)
   | _ \<Rightarrow> False)"

section \<open>Properties of rounding\<close>


lemma flog2_bounds_ge1:
  assumes "1 \<le> a"
  shows "2 powi (bitlen \<lfloor>a\<rfloor> - 1) \<le> (a::real)" "a < 2 powi (bitlen \<lfloor>a::real\<rfloor>)"
proof -
  have p: "0 < \<lfloor>a\<rfloor>" using assms by linarith
  from bitlen_bounds[OF p] have b: "2 ^ nat (bitlen \<lfloor>a\<rfloor> - 1) \<le> \<lfloor>a\<rfloor>" "\<lfloor>a\<rfloor> < 2 ^ nat (bitlen \<lfloor>a\<rfloor>)" by auto
  have bl: "1 \<le> bitlen \<lfloor>a\<rfloor>" using p bitlen_eq_zero_iff[of "\<lfloor>a\<rfloor>"] bitlen_nonneg[of "\<lfloor>a\<rfloor>"] by linarith
  have "(2::real) powi (bitlen \<lfloor>a\<rfloor> - 1) = 2 ^ nat (bitlen \<lfloor>a\<rfloor> - 1)"
    using bl by (simp add: power_int_def)
  also have "\<dots> = of_int (2 ^ nat (bitlen \<lfloor>a\<rfloor> - 1))" by simp
  also have "\<dots> \<le> of_int \<lfloor>a\<rfloor>" using b(1) of_int_le_iff by blast
  also have "\<dots> \<le> a" by simp
  finally show "2 powi (bitlen \<lfloor>a\<rfloor> - 1) \<le> a" .
  have "\<lfloor>a\<rfloor> + 1 \<le> 2 ^ nat (bitlen \<lfloor>a\<rfloor>)" using b(2) by simp
  then have "of_int (\<lfloor>a\<rfloor> + 1) \<le> (of_int (2 ^ nat (bitlen \<lfloor>a\<rfloor>)) :: real)" using of_int_le_iff by blast
  then have "a < 2 ^ nat (bitlen \<lfloor>a\<rfloor>)" by (simp) linarith
  then show "a < 2 powi (bitlen \<lfloor>a\<rfloor>)" using bl by (simp add: power_int_def)
qed

lemma flog2_bounds_lt1:
  assumes "0 < a" "a < 1"
  shows "2 powi (- bitlen (\<lceil>1 / a\<rceil> - 1)) \<le> (a::real)" "a < 2 powi (- bitlen (\<lceil>1 / a::real\<rceil> - 1) + 1)"
proof -
  let ?c = "\<lceil>1 / a\<rceil>"
  have inv: "1 < 1 / a" using assms by simp
  then have p: "0 < ?c - 1" by linarith
  let ?k = "bitlen (?c - 1)"
  from bitlen_bounds[OF p] have b: "2 ^ nat (?k - 1) \<le> ?c - 1" "?c - 1 < 2 ^ nat ?k" by auto
  have bl: "1 \<le> ?k" using p bitlen_eq_zero_iff[of "?c - 1"] bitlen_nonneg[of "?c - 1"] by linarith
  have "?c \<le> 2 ^ nat ?k" using b(2) by simp
  then have "of_int ?c \<le> (of_int (2 ^ nat ?k) :: real)" using of_int_le_iff by blast
  then have "of_int ?c \<le> (2 ^ nat ?k :: real)" by (simp only: of_int_power of_int_numeral)
  moreover have "1 / a \<le> of_int ?c" by (rule le_of_int_ceiling)
  ultimately have "1 / a \<le> 2 ^ nat ?k" by (rule order_trans[rotated])
  then have "1 \<le> 2 ^ nat ?k * a" using assms by (simp add: field_simps)
  then have "1 / 2 ^ nat ?k \<le> a" by (simp add: field_simps)
  then show "2 powi (- ?k) \<le> a" using bl by (simp add: power_int_def field_simps)
  have "of_int (2 ^ nat (?k - 1)) \<le> (of_int (?c - 1) :: real)" using b(1) of_int_le_iff by blast
  then have "(2 ^ nat (?k - 1) :: real) \<le> of_int ?c - 1" by (simp only: of_int_power of_int_numeral of_int_diff of_int_1)
  moreover have "of_int ?c - 1 < 1 / a" using ceiling_correct[of "1 / a"] by linarith
  ultimately have "2 ^ nat (?k - 1) < 1 / a" by (rule order_le_less_trans)
  then have "a * 2 ^ nat (?k - 1) < 1" using assms by (simp add: field_simps)
  then have "a < 1 / 2 ^ nat (?k - 1)" by (simp add: field_simps)
  moreover have "(2::real) powi (- ?k + 1) = 1 / 2 ^ nat (?k - 1)"
    using bl by (simp add: power_int_def field_simps nat_diff_distrib)
  ultimately show "a < 2 powi (- ?k + 1)" by simp
qed

lemma flog2_bounds:
  assumes "x \<noteq> 0"
  shows "2 powi flog2 x \<le> \<bar>x\<bar>" "\<bar>x\<bar> < 2 powi (flog2 x + 1)"
  using assms flog2_bounds_ge1[of "\<bar>x\<bar>"] flog2_bounds_lt1[of "\<bar>x\<bar>"]
  by (auto simp: flog2_def Let_def)

lemma powi2_mono: "a \<le> b \<Longrightarrow> (2::real) powi a \<le> 2 powi b"
  by (rule power_int_increasing) auto

lemma powi2_less_iff: "(2::real) powi a < 2 powi b \<longleftrightarrow> a < b"
proof
  assume h: "(2::real) powi a < 2 powi b"
  show "a < b"
  proof (rule ccontr)
    assume "\<not> a < b"
    then have "(2::real) powi b \<le> 2 powi a" by (intro powi2_mono) simp
    with h show False by simp
  qed
next
  assume "a < b"
  then show "(2::real) powi a < 2 powi b" by (rule power_int_strict_increasing) simp
qed

lemma flog2_unique:
  assumes "2 powi e \<le> \<bar>x\<bar>" "\<bar>x\<bar> < 2 powi (e + 1)"
  shows "flog2 x = e"
proof -
  have "(0::real) < 2 powi e" by simp
  then have "0 < \<bar>x\<bar>" using assms(1) by (rule less_le_trans)
  then have nz: "x \<noteq> 0" by auto
  note b = flog2_bounds[OF nz]
  have "(2::real) powi e < 2 powi (flog2 x + 1)" using assms(1) b(2) by linarith
  then have 1: "e < flog2 x + 1" by (simp add: powi2_less_iff)
  have "(2::real) powi flog2 x < 2 powi (e + 1)" using assms(2) b(1) by linarith
  then have 2: "flog2 x < e + 1" by (simp add: powi2_less_iff)
  from 1 2 show ?thesis by simp
qed


lemma rne_cases:
  "rne y = \<lfloor>y\<rfloor> \<or> rne y = \<lfloor>y\<rfloor> + 1"
  by (simp add: rne_def Let_def)

lemma rne_of_int [simp]: "rne (of_int n) = n"
  by (simp add: rne_def Let_def)

lemma rne_err: "\<bar>of_int (rne y) - y\<bar> \<le> 1 / 2"
proof -
  have "of_int \<lfloor>y\<rfloor> \<le> y" "y < of_int \<lfloor>y\<rfloor> + 1" by linarith+
  then show ?thesis by (auto simp: rne_def Let_def)
qed

lemma rne_mono: assumes "x \<le> y" shows "rne x \<le> rne y"
proof (cases "\<lfloor>x\<rfloor> = \<lfloor>y\<rfloor>")
  case True
  then show ?thesis using assms by (auto simp: rne_def Let_def)
next
  case False
  then have "\<lfloor>x\<rfloor> + 1 \<le> \<lfloor>y\<rfloor>" using floor_mono[OF assms] by linarith
  moreover have "rne x \<le> \<lfloor>x\<rfloor> + 1" using rne_cases[of x] by auto
  moreover have "\<lfloor>y\<rfloor> \<le> rne y" using rne_cases[of y] by auto
  ultimately show ?thesis by linarith
qed

lemma rne_ge: "of_int k \<le> y \<Longrightarrow> k \<le> rne y"
  using rne_mono[of "of_int k" y] by simp

lemma rne_le: "y \<le> of_int k \<Longrightarrow> rne y \<le> k"
  using rne_mono[of y "of_int k"] by simp

lemma rne_down: "rne y = \<lfloor>y\<rfloor> \<Longrightarrow> y - of_int \<lfloor>y\<rfloor> \<le> 1 / 2"
  by (simp add: rne_def Let_def split: if_splits)

lemma rne_up: "rne y = \<lfloor>y\<rfloor> + 1 \<Longrightarrow> 1 / 2 \<le> y - of_int \<lfloor>y\<rfloor>"
  by (simp add: rne_def Let_def split: if_splits)

lemma rne_minus: "rne (- y) = - rne y"
proof (cases "y = of_int \<lfloor>y\<rfloor>")
  case True
  then obtain n where "y = of_int n" by blast
  then have "- y = of_int (- n)" by simp
  then show ?thesis using \<open>y = of_int n\<close> by (simp only: rne_of_int)
next
  case False
  define f where "f = \<lfloor>y\<rfloor>"
  have b: "of_int f < y" "y < of_int f + 1" using False unfolding f_def by linarith+
  have fl: "\<lfloor>- y\<rfloor> = - f - 1" using b by (intro floor_unique) auto
  have ev: "even (- f - 1) \<longleftrightarrow> odd f" by simp
  have d: "- y - of_int (- f - 1) = 1 - (y - of_int f)" by simp
  consider "y - of_int f < 1 / 2" | "y - of_int f = 1 / 2" | "1 / 2 < y - of_int f" by linarith
  then show ?thesis
  proof cases
    case 1
    then have "rne y = f" by (simp add: rne_def Let_def f_def)
    moreover have "rne (- y) = - f" using 1 by (simp add: rne_def Let_def fl)
    ultimately show ?thesis by simp
  next
    case 2
    then have "rne y = (if even f then f else f + 1)" by (simp add: rne_def Let_def f_def)
    moreover have "rne (- y) = (if odd f then - f - 1 else - f)" using 2 by (simp add: rne_def Let_def fl)
    ultimately show ?thesis by simp
  next
    case 3
    then have "rne y = f + 1" by (simp add: rne_def Let_def f_def)
    moreover have "rne (- y) = - f - 1" using 3 by (simp add: rne_def Let_def fl)
    ultimately show ?thesis by simp
  qed
qed

lemma rne_nearest: "\<bar>of_int (rne y) - y\<bar> \<le> \<bar>of_int k - y\<bar>"
proof -
  have b: "of_int \<lfloor>y\<rfloor> \<le> y" "y < of_int \<lfloor>y\<rfloor> + 1" by linarith+
  have k: "(of_int k :: real) \<le> of_int \<lfloor>y\<rfloor> \<or> of_int \<lfloor>y\<rfloor> + 1 \<le> (of_int k :: real)"
  proof (cases "k \<le> \<lfloor>y\<rfloor>")
    case True then show ?thesis by simp
  next
    case False
    then have "\<lfloor>y\<rfloor> + 1 \<le> k" by simp
    then have "of_int (\<lfloor>y\<rfloor> + 1) \<le> (of_int k :: real)" by (simp only: of_int_le_iff)
    then show ?thesis by simp
  qed
  from rne_cases[of y] show ?thesis
  proof
    assume h: "rne y = \<lfloor>y\<rfloor>"
    from rne_down[OF h] b k show ?thesis unfolding h by linarith
  next
    assume h: "rne y = \<lfloor>y\<rfloor> + 1"
    have "of_int (rne y) = of_int \<lfloor>y\<rfloor> + (1::real)" unfolding h by simp
    with rne_up[OF h] b k show ?thesis by linarith
  qed
qed


lemma rne_0 [simp]: "rne 0 = 0"
  by (simp add: rne_def)

lemma round_real_0 [simp]: "round_real 0 = 0"
  by (simp add: round_real_def)

lemma flog2_minus [simp]: "flog2 (- x) = flog2 x"
  by (simp add: flog2_def)

lemma ulp_exp_minus [simp]: "ulp_exp (- x) = ulp_exp x"
  by (simp add: ulp_exp_def)

lemma round_real_minus: "round_real (- x) = - round_real x"
  by (simp add: round_real_def rne_minus)

lemma round_real_err: "\<bar>round_real x - x\<bar> \<le> 2 powi (ulp_exp x) / 2"
proof -
  define u :: real where "u = 2 powi (ulp_exp x)"
  have u: "0 < u" by (simp add: u_def)
  have "round_real x - x = (of_int (rne (x / u)) - x / u) * u"
    using u by (simp add: round_real_def u_def[symmetric] left_diff_distrib)
  then have "\<bar>round_real x - x\<bar> = \<bar>of_int (rne (x / u)) - x / u\<bar> * u"
    using u by (simp only: abs_mult abs_of_pos)
  also have "\<dots> \<le> 1 / 2 * u" using rne_err[of "x / u"] u by (intro mult_right_mono) auto
  finally show ?thesis by (simp add: u_def)
qed

lemma round_real_nonneg: "0 \<le> x \<Longrightarrow> 0 \<le> round_real x"
proof -
  assume "0 \<le> x"
  then have "of_int 0 \<le> x / 2 powi ulp_exp x" by simp
  then have "0 \<le> rne (x / 2 powi ulp_exp x)" by (rule rne_ge)
  then show ?thesis by (simp add: round_real_def)
qed

lemma flog2_mono: assumes "0 < x" "x \<le> y" shows "flog2 x \<le> flog2 y"
proof -
  have "2 powi flog2 x \<le> \<bar>x\<bar>" using flog2_bounds(1)[of x] assms by simp
  also have "\<dots> \<le> \<bar>y\<bar>" using assms by simp
  also have "\<dots> < 2 powi (flog2 y + 1)" using flog2_bounds(2)[of y] assms by simp
  finally have "flog2 x < flog2 y + 1" by (simp add: powi2_less_iff)
  then show ?thesis by simp
qed

lemma ulp_exp_ge: "- 1074 \<le> ulp_exp x"
  by (simp add: ulp_exp_def)

lemma ulp_exp_mono: "0 < x \<Longrightarrow> x \<le> y \<Longrightarrow> ulp_exp x \<le> ulp_exp y"
  using flog2_mono[of x y] by (simp add: ulp_exp_def)

lemma ulp_exp_upper: assumes "x \<noteq> 0" shows "\<bar>x\<bar> < 2 powi (ulp_exp x + 53)"
proof -
  have "\<bar>x\<bar> < 2 powi (flog2 x + 1)" using flog2_bounds(2)[OF assms] .
  also have "\<dots> \<le> 2 powi (ulp_exp x + 53)" by (rule powi2_mono) (simp add: ulp_exp_def)
  finally show ?thesis .
qed

lemma ulp_exp_lower:
  assumes "x \<noteq> 0" "- 1022 \<le> flog2 x"
  shows "2 powi (ulp_exp x + 52) \<le> \<bar>x\<bar>"
  using flog2_bounds(1)[OF assms(1)] assms(2) by (simp add: ulp_exp_def max_def)

lemma powi2_split: "(2::real) powi (a + b) = 2 powi a * 2 powi b"
  by (simp add: power_int_add)

lemma round_real_upper:
  assumes "0 < x" shows "round_real x \<le> 2 powi (ulp_exp x + 53)"
proof -
  define u :: real where "u = 2 powi (ulp_exp x)"
  have u: "0 < u" by (simp add: u_def)
  have "x < u * 2 ^ 53" using ulp_exp_upper[of x] assms by (simp add: powi2_split u_def)
  then have "x / u \<le> of_int (2 ^ 53)" using u by (simp add: field_simps)
  then have "rne (x / u) \<le> 2 ^ 53" by (rule rne_le)
  then have "of_int (rne (x / u)) \<le> (of_int (2 ^ 53) :: real)" by (simp only: of_int_le_iff)
  then have "of_int (rne (x / u)) * u \<le> 2 ^ 53 * u" using u by (intro mult_right_mono) auto
  then show ?thesis by (simp add: round_real_def u_def powi2_split mult.commute)
qed

lemma round_real_lower:
  assumes "0 < x" "- 1022 \<le> flog2 x" shows "2 powi (ulp_exp x + 52) \<le> round_real x"
proof -
  define u :: real where "u = 2 powi (ulp_exp x)"
  have u: "0 < u" by (simp add: u_def)
  have "u * 2 ^ 52 \<le> x" using ulp_exp_lower[of x] assms by (simp add: powi2_split u_def)
  then have "of_int (2 ^ 52) \<le> x / u" using u by (simp add: field_simps)
  then have "2 ^ 52 \<le> rne (x / u)" by (rule rne_ge)
  then have "(of_int (2 ^ 52) :: real) \<le> of_int (rne (x / u))" by (simp only: of_int_le_iff)
  then have "2 ^ 52 * u \<le> of_int (rne (x / u)) * u" using u by (intro mult_right_mono) auto
  then show ?thesis by (simp add: round_real_def u_def powi2_split mult.commute)
qed

lemma round_real_mono_pos:
  assumes "0 < x" "x \<le> y" shows "round_real x \<le> round_real y"
proof (cases "ulp_exp x = ulp_exp y")
  case True
  define u :: real where "u = 2 powi (ulp_exp y)"
  have u: "0 < u" by (simp add: u_def)
  have "x / u \<le> y / u" using assms u by (simp add: divide_right_mono)
  then have "rne (x / u) \<le> rne (y / u)" by (rule rne_mono)
  then have "(of_int (rne (x / u)) :: real) \<le> of_int (rne (y / u))" by (simp only: of_int_le_iff)
  then have "of_int (rne (x / u)) * u \<le> of_int (rne (y / u)) * u" using u by (intro mult_right_mono) auto
  then show ?thesis by (simp add: round_real_def True u_def)
next
  case False
  then have lt: "ulp_exp x + 1 \<le> ulp_exp y" using ulp_exp_mono[OF assms] by simp
  then have "flog2 x < flog2 y" by (auto simp: ulp_exp_def max_def split: if_splits)
  then have n: "- 1022 \<le> flog2 y" using lt by (auto simp: ulp_exp_def max_def split: if_splits)
  have y: "0 < y" using assms by simp
  have "round_real x \<le> 2 powi (ulp_exp x + 53)" by (rule round_real_upper[OF assms(1)])
  also have "\<dots> \<le> 2 powi (ulp_exp y + 52)" by (rule powi2_mono) (use lt in simp)
  also have "\<dots> \<le> round_real y" by (rule round_real_lower[OF y n])
  finally show ?thesis .
qed

lemma round_real_mono:
  assumes "x \<le> y" shows "round_real x \<le> round_real y"
proof -
  consider "0 < x" | "x \<le> 0" "0 \<le> y" | "y < 0" using assms by linarith
  then show ?thesis
  proof cases
    case 1 then show ?thesis using assms by (rule round_real_mono_pos)
  next
    case 2
    have "round_real x \<le> 0" using round_real_nonneg[of "- x"] 2(1) by (simp add: round_real_minus)
    also have "0 \<le> round_real y" using 2(2) by (rule round_real_nonneg)
    finally show ?thesis .
  next
    case 3
    have "round_real (- y) \<le> round_real (- x)" using 3 assms by (intro round_real_mono_pos) auto
    then show ?thesis by (simp add: round_real_minus)
  qed
qed


lemma round_real_fix:
  assumes "x = of_int m * 2 powi e" "\<bar>m\<bar> < 2 ^ 53" "- 1074 \<le> e"
  shows "round_real x = x"
proof (cases "x = 0")
  case True then show ?thesis by simp
next
  case False
  have "\<bar>m\<bar> \<le> 2 ^ 53" using assms(2) by simp
  then have "(of_int \<bar>m\<bar> :: real) \<le> of_int (2 ^ 53)" by (simp only: of_int_le_iff)
  then have m: "\<bar>of_int m :: real\<bar> \<le> 2 ^ 53" by simp
  have "2 powi flog2 x \<le> \<bar>x\<bar>" by (rule flog2_bounds(1)[OF False])
  also have "\<bar>x\<bar> = \<bar>of_int m\<bar> * 2 powi e" by (simp add: assms(1) abs_mult)
  also have "\<dots> < 2 ^ 53 * 2 powi e"
  proof -
    have "\<bar>m\<bar> < 2 ^ 53" by fact
    then have "(of_int \<bar>m\<bar> :: real) < of_int (2 ^ 53)" by (simp only: of_int_less_iff)
    then have "\<bar>of_int m :: real\<bar> < 2 ^ 53" by simp
    then show ?thesis by (intro mult_strict_right_mono) auto
  qed
  also have "\<dots> = 2 powi (e + 53)" by (simp add: powi2_split)
  finally have "flog2 x < e + 53" by (simp add: powi2_less_iff)
  then have q: "ulp_exp x \<le> e" using assms(3) unfolding ulp_exp_def by linarith
  define k where "k = nat (e - ulp_exp x)"
  have e: "e = ulp_exp x + int k" using q unfolding k_def by linarith
  have p: "(2::real) powi e = 2 powi ulp_exp x * 2 ^ k"
    by (subst e) (simp add: powi2_split)
  have "x / 2 powi ulp_exp x = of_int m * 2 powi e / 2 powi ulp_exp x"
    by (subst (1) assms(1)) (rule refl)
  also have "\<dots> = of_int m * 2 ^ k"
    by (simp add: p)
  also have "\<dots> = of_int (m * 2 ^ k)" by simp
  finally have "rne (x / 2 powi ulp_exp x) = m * 2 ^ k" by (simp only: rne_of_int)
  then have "round_real x = of_int (m * 2 ^ k) * 2 powi ulp_exp x" by (simp add: round_real_def)
  also have "\<dots> = of_int m * (2 powi ulp_exp x * 2 ^ k)" by simp
  also have "\<dots> = of_int m * 2 powi e" by (simp add: p)
  also have "\<dots> = x" by (rule assms(1)[symmetric])
  finally show ?thesis .
qed


lemma rne_abs_bound:
  assumes "\<bar>y\<bar> \<le> of_int k" shows "\<bar>rne y\<bar> \<le> k"
proof -
  have "y \<le> of_int k" "of_int (- k) \<le> y" using assms by auto
  then have "rne y \<le> k" "- k \<le> rne y" by (auto intro: rne_le rne_ge)
  then show ?thesis by simp
qed

lemma round_real_idem [simp]: "round_real (round_real x) = round_real x"
proof (cases "x = 0")
  case True then show ?thesis by simp
next
  case False
  define q where "q = ulp_exp x"
  define u :: real where "u = 2 powi q"
  define n where "n = rne (x / u)"
  have u: "0 < u" by (simp add: u_def)
  have r: "round_real x = of_int n * 2 powi q" by (simp add: round_real_def n_def u_def q_def)
  have "\<bar>x\<bar> < u * 2 ^ 53" using ulp_exp_upper[OF False] by (simp add: powi2_split u_def q_def)
  then have "\<bar>x / u\<bar> \<le> of_int (2 ^ 53)" using u by (simp add: field_simps)
  then have n: "\<bar>n\<bar> \<le> 2 ^ 53" unfolding n_def by (rule rne_abs_bound)
  have q: "- 1074 \<le> q" unfolding q_def by (rule ulp_exp_ge)
  show ?thesis
  proof (cases "\<bar>n\<bar> < 2 ^ 53")
    case True
    show ?thesis by (rule round_real_fix[OF r True q])
  next
    case False
    then have "\<bar>n\<bar> = 2 ^ 53" using n by simp
    then have "n = 2 * 2 ^ 52 \<or> n = 2 * (- (2 ^ 52))" by auto
    then obtain m :: int where m: "n = 2 * m" "\<bar>m\<bar> < 2 ^ 53" by auto
    have "round_real x = of_int m * 2 powi (q + 1)" by (simp add: r m(1) powi2_split)
    then show ?thesis by (rule round_real_fix) (use m q in auto)
  qed
qed

lemma max_double_pos: "0 < max_double"
  by (simp add: max_double_def)

lemma representable_iff:
  "representable x \<longleftrightarrow> round_real x = x \<and> \<bar>x\<bar> \<le> max_double"
  by (auto simp: representable_def round_double_def Let_def)

lemma representableI:
  assumes "x = of_int m * 2 powi e" "\<bar>m\<bar> < 2 ^ 53" "- 1074 \<le> e" "e \<le> 971"
  shows "representable x"
proof -
  have "\<bar>m\<bar> \<le> 2 ^ 53 - 1" using assms(2) by simp
  then have "(of_int \<bar>m\<bar> :: real) \<le> of_int (2 ^ 53 - 1)" by (simp only: of_int_le_iff)
  then have m: "\<bar>of_int m :: real\<bar> \<le> 2 ^ 53 - 1" by simp
  have "(2::real) powi e \<le> 2 powi 971" using assms(4) by (intro powi2_mono)
  then have e: "(2::real) powi e \<le> 2 ^ 971" by simp
  have "\<bar>x\<bar> = \<bar>of_int m\<bar> * 2 powi e" by (simp add: assms(1) abs_mult)
  also have "\<dots> \<le> (2 ^ 53 - 1) * 2 ^ 971" using m e by (intro mult_mono) auto
  finally have "\<bar>x\<bar> \<le> max_double" by (simp add: max_double_def)
  then show ?thesis using round_real_fix[OF assms(1-3)] by (simp add: representable_iff)
qed

lemma representable_max_double: "representable max_double"
  by (rule representableI[of _ "2 ^ 53 - 1" 971]) (simp_all add: max_double_def)

lemma representable_minus: "representable x \<Longrightarrow> representable (- x)"
  by (simp add: representable_iff round_real_minus)

lemma round_double_representable: "representable x \<Longrightarrow> round_double x = Finite x"
  by (simp add: representable_def)

lemma round_real_bounded:
  assumes "\<bar>x\<bar> \<le> max_double" shows "\<bar>round_real x\<bar> \<le> max_double"
proof -
  have m: "round_real max_double = max_double" using representable_max_double by (simp add: representable_iff)
  have "round_real x \<le> round_real max_double" using assms by (intro round_real_mono) auto
  moreover have "round_real (- max_double) \<le> round_real x" using assms by (intro round_real_mono) auto
  ultimately show ?thesis by (simp add: round_real_minus m)
qed

lemma round_double_bounded:
  "\<bar>x\<bar> \<le> max_double \<Longrightarrow> round_double x = Finite (round_real x)"
  using round_real_bounded[of x] by (auto simp: round_double_def Let_def)

lemma round_double_Finite:
  assumes "round_double x = Finite r" shows "representable r"
proof -
  have "r = round_real x" "\<bar>r\<bar> \<le> max_double"
    using assms by (auto simp: round_double_def Let_def split: if_splits)
  then show ?thesis by (simp add: representable_iff)
qed

lemma wf_round_double [simp]: "wf_double (round_double x)"
  using round_double_Finite[of x] by (auto simp: wf_double_def split: double.splits)

lemma wf_fadd [simp]: "wf_double (fadd a b)"
  by (cases a; cases b) (simp_all add: wf_double_def[of PInf] wf_double_def[of NInf] wf_double_def[of NaN])

lemma wf_fmul [simp]: "wf_double (fmul a b)"
  by (cases a; cases b)
    (auto simp: wf_double_def signed_inf_def split: double.splits dest: round_double_Finite)

lemma fmul_one: "wf_double s \<Longrightarrow> fmul s (Finite 1) = s"
  by (cases s) (auto simp: wf_double_def signed_inf_def round_double_representable)

lemma fmul_commute: "fmul a b = fmul b a"
  by (cases a; cases b) (auto simp: mult.commute)

lemma rne_near: assumes "\<bar>y - of_int n\<bar> < 1 / 2" shows "rne y = n"
proof -
  have "\<bar>of_int (rne y) - y\<bar> \<le> \<bar>of_int n - y\<bar>" by (rule rne_nearest)
  then have "\<bar>(of_int (rne y) :: real) - of_int n\<bar> < 1" using assms by linarith
  then have "\<bar>(of_int (rne y - n) :: real)\<bar> < of_int 1" by simp
  then have "\<bar>rne y - n\<bar> < 1" unfolding of_int_abs[symmetric] by (simp only: of_int_less_iff)
  then show ?thesis by simp
qed

lemma round_real_near:
  assumes "x = of_int n * 2 powi (ulp_exp y)" "\<bar>y - x\<bar> < 2 powi (ulp_exp y) / 2"
  shows "round_real y = x"
proof -
  define u :: real where "u = 2 powi (ulp_exp y)"
  have u: "0 < u" by (simp add: u_def)
  have "y / u - of_int n = (y - x) / u" using u by (simp add: assms(1) u_def[symmetric] field_simps)
  then have "\<bar>y / u - of_int n\<bar> = \<bar>y - x\<bar> / u" using u by (simp only: abs_divide abs_of_pos)
  also have "\<dots> < 1 / 2" using assms(2) u by (simp add: u_def[symmetric] field_simps)
  finally have "rne (y / u) = n" by (rule rne_near)
  then show ?thesis by (simp add: round_real_def u_def[symmetric] assms(1))
qed

lemma flog2_ge: assumes "2 powi e \<le> \<bar>x\<bar>" shows "e \<le> flog2 x"
proof -
  have "(0::real) < 2 powi e" by simp
  then have "0 < \<bar>x\<bar>" using assms by (rule less_le_trans)
  then have nz: "x \<noteq> 0" by auto
  have "2 powi e < (2::real) powi (flog2 x + 1)" using assms flog2_bounds(2)[OF nz] by linarith
  then show ?thesis by (simp add: powi2_less_iff)
qed

lemma flog2_less: assumes "\<bar>x\<bar> < 2 powi e" "x \<noteq> 0" shows "flog2 x < e"
proof -
  have "2 powi flog2 x < (2::real) powi e" using assms flog2_bounds(1)[OF assms(2)] by linarith
  then show ?thesis by (simp add: powi2_less_iff)
qed

lemma representable_form:
  assumes "representable x"
  shows "x = of_int (rne (x / 2 powi ulp_exp x)) * 2 powi ulp_exp x"
  using assms by (simp add: representable_iff round_real_def)

text \<open>
  A certificate for one rounding: the exponent of the last place and the nearest multiple,
  checked by comparisons of rational numbers.
\<close>

lemma round_double_cert:
  assumes near: "\<bar>y - of_int n * 2 powi q\<bar> < 2 powi q / 2"
    and lo: "2 powi (q + 52) \<le> \<bar>y\<bar>" and hi: "\<bar>y\<bar> < 2 powi (q + 53)"
    and q: "- 1074 \<le> q" "q \<le> 970"
    and v: "v = of_int n * 2 powi q"
  shows "round_double y = Finite v"
proof -
  have e: "q + 52 + 1 = q + 53" by simp
  have "flog2 y = q + 52" by (rule flog2_unique[OF lo]) (simp only: e hi)
  then have u: "ulp_exp y = q" using q by (simp add: ulp_exp_def)
  have "round_real y = v" by (rule round_real_near) (use near u v in simp_all)
  moreover have "\<bar>y\<bar> \<le> max_double"
  proof -
    have "(2::real) powi (q + 53) \<le> 2 powi 1023" using q by (intro powi2_mono) simp
    also have "\<dots> = 2 ^ 52 * 2 ^ 971" by (simp add: power_add[symmetric])
    also have "\<dots> \<le> max_double" unfolding max_double_def by (intro mult_right_mono) simp_all
    finally show ?thesis using hi by linarith
  qed
  ultimately show ?thesis by (simp add: round_double_bounded)
qed

lemmas fp_eval = round_double_def round_real_def ulp_exp_def flog2_def rne_def compute_bitlen
  max_double_def Let_def signed_inf_def

section \<open>Constants and lanes\<close>

lemma M_PI_eq: "M_PI = Finite (884279719003555 / 2 ^ 48)"
  by (simp add: M_PI_def fp_eval)

lemma M_PI_4_eq: "fdiv M_PI (Finite 4) = Finite (884279719003555 / 2 ^ 50)"
  by (simp add: M_PI_eq fp_eval)

lemma M_PI_2_eq: "fdiv M_PI (Finite 2) = Finite (884279719003555 / 2 ^ 49)"
  by (simp add: M_PI_eq fp_eval)

lemma neg_M_PI_4_eq: "fdiv (fneg M_PI) (Finite 4) = Finite (- (884279719003555 / 2 ^ 50))"
  by (simp add: M_PI_eq fp_eval)

lemma fle_not_flt: "fle a b \<Longrightarrow> \<not> flt b a"
  by (cases a; cases b) auto

lemma upt4: "[0..<4] = [0, 1, 2, Suc 2]"
  by (simp add: upt_rec)

lemma in_range_no_loop:
  assumes "in_range (angle s)"
  shows "\<not> angle_cond s"
  using assms by (auto simp: in_range_def angle_cond_def fgt_def dest: fle_not_flt)

lemma taylor_sin_eq: "taylor_sin x = spec_sine_poly x"
  by (simp add: taylor_sin_def spec_sine_poly_def Let_def fmul_commute)

lemma taylor_cos_eq: "taylor_cos x = spec_cosine_poly x"
  by (simp add: taylor_cos_def spec_cosine_poly_def Let_def fmul_commute)

lemma wf_sine_poly [simp]: "wf_double (spec_sine_poly x)"
  by (simp add: spec_sine_poly_def Let_def)

lemma wf_cosine_poly [simp]: "wf_double (spec_cosine_poly x)"
  by (simp add: spec_cosine_poly_def Let_def)

lemma lt4: "(i::nat) < 4 \<longleftrightarrow> i = 0 \<or> i = Suc 0 \<or> i = 2 \<or> i = 3"
  by auto

lemma sin4_taylor_nullptr:
  "sin4_taylor sinx x sign_vec None = Inr (\<lambda>i. if i < 4 then spec_sine_poly (x i) else sinx i)"
  by (auto simp: sin4_taylor_def upt4 sin4_taylor_lane_def taylor_sin_eq fmul_one fun_eq_iff lt4)

lemma sin4_taylor_flags:
  "sin4_taylor sinx x (Some sv) (Some cv) = Inr (\<lambda>i. if i < 4 then
     (if cv i then fmul (spec_sine_poly (x i)) (if sv i then Finite 1 else Finite (- 1))
      else fmul (spec_cosine_poly (x i)) (if sv i then Finite 1 else Finite (- 1)))
     else sinx i)"
  by (auto simp: sin4_taylor_def upt4 sin4_taylor_lane_def taylor_sin_eq taylor_cos_eq fun_eq_iff lt4)

lemma sin4_taylor_cosine:
  "sin4_taylor sinx x (Some (\<lambda>i. True)) (Some (\<lambda>i. False))
     = Inr (\<lambda>i. if i < 4 then spec_cosine_poly (x i) else sinx i)"
  by (auto simp: sin4_taylor_flags fmul_one fun_eq_iff)

lemma map2_map_map: "map2 f (map g xs) (map h xs) = map (\<lambda>i. f (g i) (h i)) xs"
  by (induction xs) auto

lemma vec_mul_map: "vec_mul (map g xs) (map h xs) = map (\<lambda>i. fmul (g i) (h i)) xs"
  by (simp add: vec_mul_def map2_map_map)

lemma vec_add_map: "vec_add (map g xs) (map h xs) = map (\<lambda>i. fadd (g i) (h i)) xs"
  by (simp add: vec_add_def map2_map_map)

lemma vec_scale_map: "vec_scale (map g xs) c = map (\<lambda>i. fmul (g i) c) xs"
  by (simp add: vec_scale_def)

lemma vec_store_map:
  "vec_store_aligned (map f [0..<4]) sinx = (\<lambda>i. if i < 4 then f i else sinx i)"
  by (auto simp: vec_store_aligned_def upt4 fun_eq_iff lt4)

lemmas vec_simps = vec_load_aligned_def vec_mul_map vec_add_map vec_scale_map vec_store_map

lemma sin4_vector_lanes:
  "sin4_vector sinx x = (\<lambda>i. if i < 4 then spec_sine_poly (x i) else sinx i)"
  by (auto simp: fun_eq_iff sin4_vector_def Let_def vec_simps spec_sine_poly_def fmul_commute)

lemma cos4_vector_lanes:
  "cos4_vector cosx x = (\<lambda>i. if i < 4 then fadd (Finite 1) (spec_cosine_poly (x i)) else cosx i)"
  by (auto simp: fun_eq_iff cos4_vector_def Let_def vec_simps spec_cosine_poly_def fmul_commute)

lemma c_eq:
  "c2 = Finite (- (1 / 2))"
  "c3 = Finite (- (6004799503160661 / 2 ^ 55))"
  "c4 = Finite (6004799503160661 / 2 ^ 57)"
  "c5 = Finite (4803839602528529 / 2 ^ 59)"
  "c6 = Finite (- (6405119470038039 / 2 ^ 62))"
  "c7 = Finite (- (3660068268593165 / 2 ^ 64))"
  "c8 = Finite (3660068268593165 / 2 ^ 67)"
  "c9 = Finite (1626697008263629 / 2 ^ 69)"
  "c10 = Finite (- (1301357606610903 / 2 ^ 72))"
  "c11 = Finite (- (1892883791434041 / 2 ^ 76))"
  by (simp_all add: c2_def c3_def c4_def c5_def c6_def c7_def c8_def c9_def c10_def c11_def fp_eval)


lemma load_pd_4: "load_pd 4 x 0 = map x [0..<4]"
  by (simp add: load_pd_def)

lemma mul_pd_map: "mul_pd (map g xs) (map h xs) = map (\<lambda>i. fmul (g i) (h i)) xs"
  by (simp add: mul_pd_def map2_map_map)

lemma add_pd_map: "add_pd (map g xs) (map h xs) = map (\<lambda>i. fadd (g i) (h i)) xs"
  by (simp add: add_pd_def map2_map_map)

lemma set1_pd_map: "set1_pd (length xs) c = map (\<lambda>i. c) xs"
  by (simp add: set1_pd_def map_replicate_const)

lemma store_pd_4: "store_pd sinx 0 (map f [0..<4]) = (\<lambda>i. if i < 4 then f i else sinx i)"
  by (auto simp: store_pd_def upt4 fun_eq_iff lt4)

lemma sine_poly3_alt: "fadd x (fmul (fmul x (fmul x x)) c3) = spec_sine_poly3 x"
  by (simp add: spec_sine_poly3_def fmul_commute)

lemma sin4_intrin_AVX:
  "sin4_intrin AVX psin sinx x = (\<lambda>i. if i < 4 then spec_sine_poly3 (x i) else sinx i)"
  using set1_pd_map[of "[0..<4]" c3]
  by (simp add: sin4_intrin_def Let_def load_pd_4 mul_pd_map add_pd_map store_pd_4 sine_poly3_alt)

lemma sse2_step:
  "sin4_intrin_sse2_step x k sinx =
     (\<lambda>i. if i = k \<or> i = k + 1 then spec_sine_poly3 (x i) else sinx i)"
  by (auto simp: sin4_intrin_sse2_step_def Let_def load_pd_def store_pd_def mul_pd_def add_pd_def
      set1_pd_def upt_rec[of 0] upt_rec[of 1] upt_rec[of "Suc 0"] numeral_2_eq_2 fun_eq_iff sine_poly3_alt)

lemma sin4_intrin_SSE2:
  "sin4_intrin SSE2 psin sinx x = (\<lambda>i. if i < 4 then spec_sine_poly3 (x i) else sinx i)"
  by (auto simp: sin4_intrin_def sse2_step fun_eq_iff lt4)

lemma sin4_reference_lanes:
  "sin4_reference psin sinx x = (\<lambda>i. if i < 4 then psin (x i) else sinx i)"
  by (auto simp: sin4_reference_def upt4 fun_eq_iff lt4)

lemma three_pi_4_eq:
  "fdiv (fmul (Finite 3) M_PI) (Finite 4) = Finite (2652839157010665 / 2 ^ 50)"
  by (simp add: M_PI_eq fp_eval)

lemma step_3pi4:
  "angle_body \<lparr>angle = Finite (2652839157010665 / 2 ^ 50), sign = True, sin_cos = True\<rparr>
     = \<lparr>angle = Finite (884279719003555 / 2 ^ 50), sign = True, sin_cos = False\<rparr>"
  by (simp add: angle_body_def neg_M_PI_4_eq M_PI_2_eq fsub_def fp_eval)

lemma cond_3pi4:
  "angle_cond \<lparr>angle = Finite (2652839157010665 / 2 ^ 50), sign = True, sin_cos = True\<rparr>"
  by (simp add: angle_cond_def M_PI_4_eq neg_M_PI_4_eq fgt_def)

lemma cond_pi4:
  "\<not> angle_cond \<lparr>angle = Finite (884279719003555 / 2 ^ 50), sign = sg, sin_cos = sc\<rparr>"
  by (simp add: angle_cond_def M_PI_4_eq neg_M_PI_4_eq fgt_def)

lemma transform_3pi4:
  "angle_transform \<lparr>angle = fdiv (fmul (Finite 3) M_PI) (Finite 4), sign = sg, sin_cos = sc\<rparr>
     = Some \<lparr>angle = fdiv M_PI (Finite 4), sign = True, sin_cos = False\<rparr>"
proof -
  let ?s0 = "\<lparr>angle = Finite (2652839157010665 / 2 ^ 50), sign = True, sin_cos = True\<rparr>"
  let ?s1 = "\<lparr>angle = Finite (884279719003555 / 2 ^ 50), sign = True, sin_cos = False\<rparr>"
  have "angle_while ?s0 = angle_while (angle_body ?s0)"
    by (subst angle_while.simps) (simp only: cond_3pi4 if_True)
  also have "\<dots> = angle_while ?s1" by (simp only: step_3pi4)
  also have "\<dots> = Some ?s1" by (subst angle_while.simps) (simp only: cond_pi4 if_False)
  finally have w: "angle_while ?s0 = Some ?s1" .
  have "\<lparr>angle = Finite (2652839157010665 / 2 ^ 50), sign = sg, sin_cos = sc\<rparr>
      \<lparr>sin_cos := True, sign := True\<rparr> = ?s0" by simp
  then show ?thesis
    unfolding angle_transform_def three_pi_4_eq M_PI_4_eq by (simp only: w)
qed

lemma cos_pi4_1:
  "fmul (Finite (884279719003555 / 2 ^ 50))
     (Finite (884279719003555 / 2 ^ 50))
   = Finite (2778046668940015 / 2 ^ 52)"
  by (simp only: c_eq fmul.simps)
    (rule round_double_cert[where n = "5556093337880030" and q = "-53"]; simp)

lemma cos_pi4_2:
  "fmul (Finite (2778046668940015 / 2 ^ 52))
     (Finite (2778046668940015 / 2 ^ 52))
   = Finite (6854555407550501 / 2 ^ 54)"
  by (simp only: c_eq fmul.simps)
    (rule round_double_cert[where n = "6854555407550501" and q = "-54"]; simp)

lemma cos_pi4_3:
  "fmul (Finite (2778046668940015 / 2 ^ 52))
     (Finite (6854555407550501 / 2 ^ 54))
   = Finite (4228234388616955 / 2 ^ 54)"
  by (simp only: c_eq fmul.simps)
    (rule round_double_cert[where n = "8456468777233910" and q = "-55"]; simp)

lemma cos_pi4_4:
  "fmul (Finite (2778046668940015 / 2 ^ 52))
     (Finite (4228234388616955 / 2 ^ 54))
   = Finite (5216375091341409 / 2 ^ 55)"
  by (simp only: c_eq fmul.simps)
    (rule round_double_cert[where n = "5216375091341409" and q = "-55"]; simp)

lemma cos_pi4_5:
  "fmul (Finite (2778046668940015 / 2 ^ 52))
     (Finite (5216375091341409 / 2 ^ 55))
   = Finite (6435444819904509 / 2 ^ 56)"
  by (simp only: c_eq fmul.simps)
    (rule round_double_cert[where n = "6435444819904509" and q = "-56"]; simp)

lemma cos_pi4_6:
  "fmul c2
     (Finite (2778046668940015 / 2 ^ 52))
   = Finite (- (2778046668940015 / 2 ^ 53))"
  by (simp only: c_eq fmul.simps)
    (rule round_double_cert[where n = "-5556093337880030" and q = "-54"]; simp)

lemma cos_pi4_7:
  "fadd (Finite (1))
     (Finite (- (2778046668940015 / 2 ^ 53)))
   = Finite (6229152585800977 / 2 ^ 53)"
  by (simp only: c_eq fadd.simps)
    (rule round_double_cert[where n = "6229152585800977" and q = "-53"]; simp)

lemma cos_pi4_8:
  "fmul c4
     (Finite (6854555407550501 / 2 ^ 54))
   = Finite (4569703605033667 / 2 ^ 58)"
  by (simp only: c_eq fmul.simps)
    (rule round_double_cert[where n = "4569703605033667" and q = "-58"]; simp)

lemma cos_pi4_9:
  "fadd (Finite (6229152585800977 / 2 ^ 53))
     (Finite (4569703605033667 / 2 ^ 58))
   = Finite (6371955823458279 / 2 ^ 53)"
  by (simp only: c_eq fadd.simps)
    (rule round_double_cert[where n = "6371955823458279" and q = "-53"]; simp)

lemma cos_pi4_10:
  "fmul c6
     (Finite (4228234388616955 / 2 ^ 54))
   = Finite (- (6013488908255225 / 2 ^ 64))"
  by (simp only: c_eq fmul.simps)
    (rule round_double_cert[where n = "-6013488908255225" and q = "-64"]; simp)

lemma cos_pi4_11:
  "fadd (Finite (6371955823458279 / 2 ^ 53))
     (Finite (- (6013488908255225 / 2 ^ 64)))
   = Finite (6369019549577295 / 2 ^ 53)"
  by (simp only: c_eq fadd.simps)
    (rule round_double_cert[where n = "6369019549577295" and q = "-53"]; simp)

lemma cos_pi4_12:
  "fmul c8
     (Finite (5216375091341409 / 2 ^ 55))
   = Finite (8478679513545401 / 2 ^ 71)"
  by (simp only: c_eq fmul.simps)
    (rule round_double_cert[where n = "8478679513545401" and q = "-71"]; simp)

lemma cos_pi4_13:
  "fadd (Finite (6369019549577295 / 2 ^ 53))
     (Finite (8478679513545401 / 2 ^ 71))
   = Finite (6369051893172851 / 2 ^ 53)"
  by (simp only: c_eq fadd.simps)
    (rule round_double_cert[where n = "6369051893172851" and q = "-53"]; simp)

lemma cos_pi4_14:
  "fmul c10
     (Finite (6435444819904509 / 2 ^ 56))
   = Finite (- (7438330012650121 / 2 ^ 78))"
  by (simp only: c_eq fmul.simps)
    (rule round_double_cert[where n = "-7438330012650121" and q = "-78"]; simp)

lemma cos_pi4_15:
  "fadd (Finite (6369051893172851 / 2 ^ 53))
     (Finite (- (7438330012650121 / 2 ^ 78)))
   = Finite (3184525835746671 / 2 ^ 52)"
  by (simp only: c_eq fadd.simps)
    (rule round_double_cert[where n = "6369051671493342" and q = "-53"]; simp)

lemma cos_pi4_val:
  "spec_cosine_poly (Finite (884279719003555 / 2 ^ 50)) = Finite (3184525835746671 / 2 ^ 52)"
  by (simp only: spec_cosine_poly_def Let_def
      cos_pi4_1 cos_pi4_2 cos_pi4_3 cos_pi4_4 cos_pi4_5 cos_pi4_6 cos_pi4_7 cos_pi4_8
      cos_pi4_9 cos_pi4_10 cos_pi4_11 cos_pi4_12 cos_pi4_13 cos_pi4_14 cos_pi4_15)

lemma sin_3pi4: "sin (3 * pi / 4) = sqrt 2 / 2"
proof -
  have "sin (3 * pi / 4) = sin (pi - pi / 4)" by simp
  also have "\<dots> = sin (pi / 4)" by (simp only: sin_pi_minus)
  also have "\<dots> = sqrt 2 / 2" by (rule sin_45)
  finally show ?thesis .
qed

lemma sqrt2_bounds: "14142135623 / 10 ^ 10 \<le> sqrt 2" "sqrt 2 \<le> 14142135624 / 10 ^ 10"
proof -
  show "14142135623 / 10 ^ 10 \<le> sqrt 2"
    by (rule real_le_rsqrt) (simp add: power2_eq_square)
  show "sqrt 2 \<le> 14142135624 / 10 ^ 10"
    by (rule real_le_lsqrt) (simp_all add: power2_eq_square)
qed

section \<open>The reduction loop\<close>

text \<open>Above \<open>2^54\<close> the doubles are at least 4 apart: subtracting \<^verbatim>\<open>M_PI/2\<close> changes nothing.\<close>

lemma round_real_stuck:
  assumes r: "representable x" and big: "2 ^ 54 < x" and p: "0 \<le> p" "p < 2"
  shows "round_real (x - p) = x"
proof -
  define n where "n = rne (x / 2 powi ulp_exp x)"
  have x: "x = of_int n * 2 powi ulp_exp x" unfolding n_def by (rule representable_form[OF r])
  have x0: "x \<noteq> 0" "0 < x" using big by auto
  have f54: "54 \<le> flog2 x" by (rule flog2_ge) (use big in simp)
  have y54: "2 ^ 54 \<le> x - p"
  proof (cases "flog2 x = 54")
    case True
    then have "ulp_exp x = 2" by (simp add: ulp_exp_def)
    then have x4: "x = of_int n * 4" using x by simp
    then have "(of_int (2 ^ 52) :: real) < of_int n" using big by simp
    then have "2 ^ 52 < n" by (simp only: of_int_less_iff)
    then have "2 ^ 52 + 1 \<le> n" by simp
    then have "(of_int (2 ^ 52 + 1) :: real) \<le> of_int n" by (simp only: of_int_le_iff)
    then show ?thesis using x4 p by simp
  next
    case False
    then have "55 \<le> flog2 x" using f54 by simp
    then have "(2::real) powi 55 \<le> 2 powi flog2 x" by (rule powi2_mono)
    also have "\<dots> \<le> \<bar>x\<bar>" by (rule flog2_bounds(1)[OF x0(1)])
    finally show ?thesis using p x0 by simp
  qed
  then have y0: "0 < x - p" by (rule less_le_trans[rotated]) simp
  have "54 \<le> flog2 (x - p)" by (rule flog2_ge) (use y54 y0 in simp)
  then have u2: "2 \<le> ulp_exp (x - p)" by (simp add: ulp_exp_def)
  have le: "ulp_exp (x - p) \<le> ulp_exp x" by (rule ulp_exp_mono[OF y0]) (use p in simp)
  define k where "k = nat (ulp_exp x - ulp_exp (x - p))"
  have e: "ulp_exp x = ulp_exp (x - p) + int k" using le unfolding k_def by linarith
  have pw: "(2::real) powi ulp_exp x = 2 powi ulp_exp (x - p) * 2 ^ k"
    by (subst e) (simp add: powi2_split)
  have xx: "x = of_int n * (2 powi ulp_exp (x - p) * 2 ^ k)" by (subst x) (simp only: pw)
  have alg: "of_int n * (2 powi ulp_exp (x - p) * 2 ^ k)
      = of_int (n * 2 ^ k) * (2::real) powi ulp_exp (x - p)" by simp
  have form: "x = of_int (n * 2 ^ k) * 2 powi ulp_exp (x - p)" using xx alg by (rule trans)
  have "(2::real) powi 2 \<le> 2 powi ulp_exp (x - p)" using u2 by (rule powi2_mono)
  then have "\<bar>(x - p) - x\<bar> < 2 powi ulp_exp (x - p) / 2" using p by simp
  with form show ?thesis by (rule round_real_near)
qed

lemma representable_P4: "representable P4r" "representable (- P4r)"
proof -
  show "representable P4r"
    by (rule representableI[of _ 884279719003555 "- 50"]) (simp_all add: power_int_minus_divide)
  then show "representable (- P4r)" by (rule representable_minus)
qed

lemma max_double_ge: "2 ^ 54 \<le> max_double"
proof -
  have "(2::real) ^ 54 * 1 \<le> 2 ^ 54 * 2 ^ 970" by (intro mult_left_mono) simp_all
  also have "\<dots> = 2 ^ 1024" by (simp add: power_add[symmetric])
  finally have "(2::real) ^ 54 \<le> 2 ^ 1024" by simp
  have "max_double = 2 ^ 1024 - 2 ^ 971" by (simp add: max_double_def left_diff_distrib power_add[symmetric])
  have "(2::real) ^ 54 \<le> 2 ^ 971" by (rule power_increasing) simp_all
  moreover have "(2::real) ^ 971 * 1 \<le> 2 ^ 971 * (2 ^ 53 - 1)" by (intro mult_left_mono) simp_all
  ultimately show ?thesis by (simp add: max_double_def mult.commute)
qed

lemma representable_bound: "representable x \<Longrightarrow> \<bar>x\<bar> \<le> max_double"
  by (simp add: representable_iff)

lemma sub_finite:
  assumes "representable x" "P4r < x"
  shows "fsub (Finite x) (fdiv M_PI (Finite 2)) = Finite (round_real (x - P2r))"
proof -
  have "\<bar>x - P2r\<bar> \<le> max_double"
    using representable_bound[OF assms(1)] assms(2) max_double_ge by (simp add: abs_if)
  then show ?thesis by (simp add: fsub_def M_PI_2_eq round_double_bounded)
qed

lemma sub_lower: assumes "P4r \<le> x" shows "- P4r \<le> round_real (x - P2r)"
proof -
  have "round_real (- P4r) \<le> round_real (x - P2r)" using assms by (intro round_real_mono) simp
  then show ?thesis using representable_P4(2) by (simp add: representable_iff)
qed

lemma sub_upper: assumes "representable x" shows "round_real (x - P2r) \<le> x"
proof -
  have "round_real (x - P2r) \<le> round_real x" by (intro round_real_mono) simp
  then show ?thesis using assms by (simp add: representable_iff)
qed

lemma sub_decrease:
  assumes "P4r < x" "x \<le> 2 ^ 54"
  shows "round_real (x - P2r) \<le> x - 1 / 2"
proof (cases "x - P2r = 0")
  case True
  have r: "round_real (x - P2r) = 0" unfolding True by (rule round_real_0)
  have "1 / 2 \<le> x" using assms(1) by simp
  then show ?thesis unfolding r by simp
next
  case False
  have "\<bar>x - P2r\<bar> < 2 powi 54" using assms by (simp add: abs_if)
  then have "flog2 (x - P2r) < 54" using False by (rule flog2_less)
  then have "ulp_exp (x - P2r) \<le> 1" by (simp add: ulp_exp_def)
  then have "(2::real) powi ulp_exp (x - P2r) \<le> 2 powi 1" by (rule powi2_mono)
  then have "\<bar>round_real (x - P2r) - (x - P2r)\<bar> \<le> 1"
    using round_real_err[of "x - P2r"] by simp
  then show ?thesis by (simp add: abs_if split: if_splits)
qed

lemma sub_stuck:
  assumes "representable x" "2 ^ 54 < x"
  shows "round_real (x - P2r) = x"
  by (rule round_real_stuck[OF assms]) simp_all

lemma add_finite:
  assumes "representable x" "x < - P4r"
  shows "fadd (Finite x) (fdiv M_PI (Finite 2)) = Finite (- round_real (- x - P2r))"
proof -
  have "\<bar>x + P2r\<bar> \<le> max_double"
    using representable_bound[OF assms(1)] assms(2) max_double_ge by (simp add: abs_if)
  moreover have "round_real (x + P2r) = - round_real (- x - P2r)"
  proof -
    have "x + P2r = - (- x - P2r)" by simp
    then have "round_real (x + P2r) = round_real (- (- x - P2r))" by (rule arg_cong)
    then show ?thesis by (simp only: round_real_minus)
  qed
  ultimately show ?thesis by (simp only: M_PI_2_eq fadd.simps round_double_bounded)
qed

lemma angle_cond_Finite:
  "angle s = Finite x \<Longrightarrow> angle_cond s \<longleftrightarrow> P4r < x \<or> x < - P4r"
  by (simp add: angle_cond_def M_PI_4_eq neg_M_PI_4_eq fgt_def)

lemma angle_body_pos:
  assumes "angle s = Finite x" "representable x" "P4r < x"
  shows "angle (angle_body s) = Finite (round_real (x - P2r))"
  using assms sub_finite[OF assms(2,3)] by (simp add: angle_body_def neg_M_PI_4_eq Let_def)

lemma angle_body_neg:
  assumes "angle s = Finite x" "representable x" "x < - P4r"
  shows "angle (angle_body s) = Finite (- round_real (- x - P2r))"
  using assms add_finite[OF assms(2,3)] by (simp add: angle_body_def neg_M_PI_4_eq Let_def)

lemma round_real_representable:
  "\<bar>x\<bar> \<le> max_double \<Longrightarrow> representable (round_real x)"
  using round_real_bounded[of x] by (simp add: representable_iff)

text \<open>One iteration from a finite angle outside the interval: the new angle.\<close>

lemma angle_body_finite:
  assumes "angle s = Finite x" "representable x" "angle_cond s"
  obtains x' where "angle (angle_body s) = Finite x'" "representable x'"
    "\<bar>x'\<bar> \<le> \<bar>x\<bar>"
    "\<bar>x\<bar> \<le> 2 ^ 54 \<Longrightarrow> \<bar>x'\<bar> \<le> P4r \<or> \<bar>x'\<bar> \<le> \<bar>x\<bar> - 1 / 2"
    "2 ^ 54 < \<bar>x\<bar> \<Longrightarrow> x' = x"
proof -
  have b: "\<bar>x\<bar> \<le> max_double" by (rule representable_bound[OF assms(2)])
  from assms(1,3) consider "P4r < x" | "x < - P4r" by (auto simp: angle_cond_Finite)
  then show ?thesis
  proof cases
    case 1
    note pos = 1
    let ?x' = "round_real (x - P2r)"
    have "\<bar>x - P2r\<bar> \<le> max_double" using b 1 max_double_ge by (simp add: abs_if)
    then have r: "representable ?x'" by (rule round_real_representable)
    have lo: "- P4r \<le> ?x'" by (rule sub_lower) (use 1 in simp)
    have up: "?x' \<le> x" by (rule sub_upper[OF assms(2)])
    show ?thesis
    proof (rule that[of ?x'])
      show "angle (angle_body s) = Finite ?x'" by (rule angle_body_pos[OF assms(1,2) pos])
      show "representable ?x'" by (rule r)
      show "\<bar>?x'\<bar> \<le> \<bar>x\<bar>" using lo up 1 by (simp add: abs_if)
      show "\<bar>?x'\<bar> \<le> P4r \<or> \<bar>?x'\<bar> \<le> \<bar>x\<bar> - 1 / 2" if "\<bar>x\<bar> \<le> 2 ^ 54"
        using sub_decrease[OF pos] that lo 1 by (simp add: abs_if split: if_splits)
      show "?x' = x" if "2 ^ 54 < \<bar>x\<bar>"
        by (rule sub_stuck[OF assms(2)]) (use that 1 in \<open>simp add: abs_if split: if_splits\<close>)
    qed
  next
    case 2
    note neg = 2
    let ?y = "round_real (- x - P2r)"
    have m: "representable (- x)" by (rule representable_minus[OF assms(2)])
    have neg': "P4r < - x" using 2 by simp
    have "\<bar>- x - P2r\<bar> \<le> max_double" using b 2 max_double_ge by (simp add: abs_if)
    then have "representable ?y" by (rule round_real_representable)
    then have r: "representable (- ?y)" by (rule representable_minus)
    have lo: "- P4r \<le> ?y" by (rule sub_lower) (use 2 in simp)
    have up: "?y \<le> - x" by (rule sub_upper[OF m])
    show ?thesis
    proof (rule that[of "- ?y"])
      show "angle (angle_body s) = Finite (- ?y)" by (rule angle_body_neg[OF assms(1,2) neg])
      show "representable (- ?y)" by (rule r)
      show "\<bar>- ?y\<bar> \<le> \<bar>x\<bar>" using lo up 2 by (simp add: abs_if)
      show "\<bar>- ?y\<bar> \<le> P4r \<or> \<bar>- ?y\<bar> \<le> \<bar>x\<bar> - 1 / 2" if "\<bar>x\<bar> \<le> 2 ^ 54"
        using sub_decrease[OF neg'] that lo 2 by (simp add: abs_if split: if_splits)
      show "- ?y = x" if "2 ^ 54 < \<bar>x\<bar>"
        using sub_stuck[OF m] that 2 by (simp add: abs_if split: if_splits)
    qed
  qed
qed

lemma in_range_Finite: "in_range (Finite x) \<longleftrightarrow> - P4r \<le> x \<and> x \<le> P4r"
  by (simp add: in_range_def M_PI_4_eq neg_M_PI_4_eq)

lemma is_finiteE:
  assumes "is_finite a" obtains x where "a = Finite x" "representable x"
  using assms by (cases a) auto

lemma angle_while_exit: "\<not> angle_cond s \<Longrightarrow> angle_while s = Some s"
  by (subst angle_while.simps) simp

lemma angle_while_iterate: "angle_cond s \<Longrightarrow> angle_while s = angle_while (angle_body s)"
  by (subst angle_while.simps) simp

lemma angle_while_range:
  assumes "angle_while s = Some r"
  shows "is_finite (angle s) \<longrightarrow> is_finite (angle r) \<and> in_range (angle r)"
proof (rule angle_while.raw_induct[where P = "\<lambda>s r. is_finite (angle s) \<longrightarrow>
    is_finite (angle r) \<and> in_range (angle r)", OF _ assms])
  fix f :: "reduction \<Rightarrow> reduction option" and s r
  assume IH: "\<And>x y. f x = Some y \<Longrightarrow>
      is_finite (angle x) \<longrightarrow> is_finite (angle y) \<and> in_range (angle y)"
    and eq: "(if angle_cond s then f (angle_body s) else Some s) = Some r"
  show "is_finite (angle s) \<longrightarrow> is_finite (angle r) \<and> in_range (angle r)"
  proof
    assume "is_finite (angle s)"
    then obtain x where x: "angle s = Finite x" "representable x" by (rule is_finiteE)
    show "is_finite (angle r) \<and> in_range (angle r)"
    proof (cases "angle_cond s")
      case True
      then have f: "f (angle_body s) = Some r" using eq by simp
      show ?thesis
      proof (rule angle_body_finite[OF x True])
        fix x' assume "angle (angle_body s) = Finite x'" "representable x'"
        then have "is_finite (angle (angle_body s))" by simp
        with IH[OF f] show ?thesis by simp
      qed
    next
      case False
      then have "r = s" using eq by simp
      then show ?thesis using False x by (simp add: angle_cond_Finite in_range_Finite)
    qed
  qed
qed

lemma angle_while_terminates:
  "angle s = Finite x \<Longrightarrow> representable x \<Longrightarrow> \<bar>x\<bar> \<le> 2 ^ 54 \<Longrightarrow> \<bar>x\<bar> \<le> real n / 2
    \<Longrightarrow> \<exists>r. angle_while s = Some r"
proof (induction n arbitrary: s x)
  case 0
  then have "\<not> angle_cond s" by (simp add: angle_cond_Finite)
  then show ?case by (simp add: angle_while_exit)
next
  case (Suc n)
  show ?case
  proof (cases "angle_cond s")
    case False
    then show ?thesis by (simp add: angle_while_exit)
  next
    case True
    show ?thesis
    proof (rule angle_body_finite[OF Suc.prems(1,2) True])
      fix x'
      assume a: "angle (angle_body s) = Finite x'" and r: "representable x'"
        and le: "\<bar>x'\<bar> \<le> \<bar>x\<bar>"
        and dec: "\<bar>x\<bar> \<le> 2 ^ 54 \<Longrightarrow> \<bar>x'\<bar> \<le> P4r \<or> \<bar>x'\<bar> \<le> \<bar>x\<bar> - 1 / 2"
      from dec[OF Suc.prems(3)] have "\<exists>r. angle_while (angle_body s) = Some r"
      proof
        assume "\<bar>x'\<bar> \<le> P4r"
        then have "\<not> angle_cond (angle_body s)" using a by (simp add: angle_cond_Finite abs_if split: if_splits)
        then show ?thesis by (simp add: angle_while_exit)
      next
        assume "\<bar>x'\<bar> \<le> \<bar>x\<bar> - 1 / 2"
        then have "\<bar>x'\<bar> \<le> real n / 2" using Suc.prems(4) by simp
        moreover have "\<bar>x'\<bar> \<le> 2 ^ 54" using le Suc.prems(3) by simp
        ultimately show ?thesis using Suc.IH[OF a r] by blast
      qed
      then show ?thesis by (simp add: angle_while_iterate[OF True])
    qed
  qed
qed

lemma angle_while_stuck:
  assumes "angle_while s = Some r"
  shows "\<not> (\<exists>x. angle s = Finite x \<and> representable x \<and> 2 ^ 54 < \<bar>x\<bar>)"
proof (rule angle_while.raw_induct[where P = "\<lambda>s r.
    \<not> (\<exists>x. angle s = Finite x \<and> representable x \<and> 2 ^ 54 < \<bar>x\<bar>)", OF _ assms])
  fix f :: "reduction \<Rightarrow> reduction option" and s r
  assume IH: "\<And>y z. f y = Some z \<Longrightarrow>
      \<not> (\<exists>x. angle y = Finite x \<and> representable x \<and> 2 ^ 54 < \<bar>x\<bar>)"
    and eq: "(if angle_cond s then f (angle_body s) else Some s) = Some r"
  show "\<not> (\<exists>x. angle s = Finite x \<and> representable x \<and> 2 ^ 54 < \<bar>x\<bar>)"
  proof
    assume "\<exists>x. angle s = Finite x \<and> representable x \<and> 2 ^ 54 < \<bar>x\<bar>"
    then obtain x where x: "angle s = Finite x" "representable x" and big: "2 ^ 54 < \<bar>x\<bar>" by blast
    have c: "angle_cond s" using x(1) big by (simp add: angle_cond_Finite abs_if split: if_splits)
    then have f: "f (angle_body s) = Some r" using eq by simp
    show False
    proof (rule angle_body_finite[OF x c])
      fix x' assume "angle (angle_body s) = Finite x'" "2 ^ 54 < \<bar>x\<bar> \<Longrightarrow> x' = x"
      then have "angle (angle_body s) = Finite x" using big by simp
      with IH[OF f] x(2) big show False by blast
    qed
  qed
qed

lemma angle_while_terminates_iff:
  assumes "angle s = Finite x" "representable x"
  shows "angle_while s \<noteq> None \<longleftrightarrow> \<bar>x\<bar> \<le> 2 ^ 54"
proof
  assume "angle_while s \<noteq> None"
  then obtain r where "angle_while s = Some r" by blast
  from angle_while_stuck[OF this] assms show "\<bar>x\<bar> \<le> 2 ^ 54" by (auto simp: not_less)
next
  assume le: "\<bar>x\<bar> \<le> 2 ^ 54"
  obtain n :: nat where "2 * \<bar>x\<bar> \<le> real n" using real_arch_simple by blast
  then have "\<bar>x\<bar> \<le> real n / 2" by simp
  from angle_while_terminates[OF assms le this] show "angle_while s \<noteq> None" by auto
qed

section \<open>The distance between \<^verbatim>\<open>M_PI/2\<close> and \<open>\<pi>/2\<close>\<close>

lemma arctan_series_bounds:
  assumes "0 \<le> x" "x \<le> 1"
  shows "(\<Sum>i<2*n. (-1)^i * (1 / real (i * 2 + 1) * x ^ (i * 2 + 1))) \<le> arctan x"
    and "arctan x \<le> (\<Sum>i<2*n+1. (-1)^i * (1 / real (i * 2 + 1) * x ^ (i * 2 + 1)))"
proof -
  let ?a = "\<lambda>n. 1 / real (n * 2 + 1) * x ^ (n * 2 + 1)"
  have z: "?a \<longlonglongrightarrow> 0" by (rule zeroseq_arctan_series) (use assms in simp)
  have p: "0 \<le> ?a n" for n using assms by simp
  have m: "?a (Suc n) \<le> ?a n" for n
  proof -
    have "x ^ (Suc n * 2 + 1) = x ^ (n * 2 + 1) * x ^ 2" by (simp add: power2_eq_square)
    also have "\<dots> \<le> x ^ (n * 2 + 1) * 1"
      using assms by (intro mult_left_mono power_le_one) simp_all
    finally have 1: "x ^ (Suc n * 2 + 1) \<le> x ^ (n * 2 + 1)" by simp
    have 2: "1 / real (Suc n * 2 + 1) \<le> 1 / real (n * 2 + 1)" by (simp add: field_simps)
    show ?thesis using 1 2 assms by (intro mult_mono) simp_all
  qed
  have s: "arctan x = (\<Sum>k. (-1)^k * ?a k)" by (rule arctan_series) (use assms in simp)
  show "(\<Sum>i<2*n. (-1)^i * ?a i) \<le> arctan x"
    unfolding s by (rule summable_Leibniz'(2)[OF z p m])
  show "arctan x \<le> (\<Sum>i<2*n+1. (-1)^i * ?a i)"
    unfolding s by (rule summable_Leibniz'(4)[OF z p m])
qed

lemma arctan_5_lower:
  "(\<Sum>i<12. (-1)^i * (1 / real (i * 2 + 1) * (1/5) ^ (i * 2 + 1))) \<le> arctan (1/5)"
  using arctan_series_bounds(1)[of "1/5" 6] by simp

lemma arctan_5_upper:
  "arctan (1/5) \<le> (\<Sum>i<13. (-1)^i * (1 / real (i * 2 + 1) * (1/5) ^ (i * 2 + 1)))"
  using arctan_series_bounds(2)[of "1/5" 6] by simp

lemma arctan_239_lower:
  "(\<Sum>i<4. (-1)^i * (1 / real (i * 2 + 1) * (1/239) ^ (i * 2 + 1))) \<le> arctan (1/239)"
  using arctan_series_bounds(1)[of "1/239" 2] by simp

lemma arctan_239_upper:
  "arctan (1/239) \<le> (\<Sum>i<5. (-1)^i * (1 / real (i * 2 + 1) * (1/239) ^ (i * 2 + 1)))"
  using arctan_series_bounds(2)[of "1/239" 2] by simp

lemma pi_half_machin: "pi / 2 = 8 * arctan (1 / 5) - 2 * arctan (1 / 239)"
  using machin by simp

lemma pi_half_lower: "P2r \<le> pi / 2"
proof -
  have "P2r \<le> 8 * (\<Sum>i<12. (-1)^i * (1 / real (i * 2 + 1) * (1/5) ^ (i * 2 + 1)))
      - 2 * (\<Sum>i<5. (-1)^i * (1 / real (i * 2 + 1) * (1/239) ^ (i * 2 + 1)))"
    by (simp add: lessThan_nat_numeral power_divide)
  also have "\<dots> \<le> 8 * arctan (1 / 5) - 2 * arctan (1 / 239)"
    using arctan_5_lower arctan_239_upper by linarith
  finally show ?thesis by (simp only: pi_half_machin)
qed

lemma pi_half_upper: "pi / 2 \<le> P2r + 1 / 10 ^ 16"
proof -
  have "8 * arctan (1 / 5) - 2 * arctan (1 / 239) \<le>
      8 * (\<Sum>i<13. (-1)^i * (1 / real (i * 2 + 1) * (1/5) ^ (i * 2 + 1)))
      - 2 * (\<Sum>i<4. (-1)^i * (1 / real (i * 2 + 1) * (1/239) ^ (i * 2 + 1)))"
    using arctan_5_upper arctan_239_lower by linarith
  also have "\<dots> \<le> P2r + 1 / 10 ^ 16"
    by (simp add: lessThan_nat_numeral power_divide)
  finally show ?thesis by (simp only: pi_half_machin)
qed

lemma pi_half_close: "\<bar>P2r - pi / 2\<bar> \<le> 1 / 10 ^ 16"
  using pi_half_lower pi_half_upper by (simp add: abs_if)

text \<open>
  No double lies between \<^verbatim>\<open>M_PI/4\<close> and \<open>\<pi>/4\<close>: for finite doubles the interval that the
  loop tests and the interval \<open>[-\<pi>/4, \<pi>/4]\<close> are the same.
\<close>

lemma round_above_P4: "round_real (P4r + 5 / 10 ^ 17) = P4r"
  by (simp add: fp_eval)

lemma representable_le_pi4:
  assumes "representable x" "x \<le> pi / 4" shows "x \<le> P4r"
proof -
  have "x \<le> P4r + 5 / 10 ^ 17" using pi_half_upper assms(2) by simp
  then have "round_real x \<le> round_real (P4r + 5 / 10 ^ 17)" by (rule round_real_mono)
  moreover have "round_real x = x" using assms(1) by (simp add: representable_iff)
  ultimately show ?thesis by (simp only: round_above_P4)
qed

lemma in_range_pi:
  assumes "representable x" "\<bar>x\<bar> \<le> pi / 4" shows "in_range (Finite x)"
proof -
  have "x \<le> P4r" by (rule representable_le_pi4[OF assms(1)]) (use assms(2) in simp)
  moreover have "- x \<le> P4r"
    by (rule representable_le_pi4[OF representable_minus[OF assms(1)]]) (use assms(2) in simp)
  ultimately show ?thesis by (simp add: in_range_Finite)
qed

lemma in_range_finite_iff:
  "is_finite a \<Longrightarrow> in_range a \<longleftrightarrow> \<bar>fval a\<bar> \<le> pi / 4"
proof (cases a)
  case (Finite x)
  assume "is_finite a"
  then have r: "representable x" by (simp add: Finite)
  have "P4r \<le> pi / 4" using pi_half_lower by simp
  then have "in_range (Finite x) \<Longrightarrow> \<bar>x\<bar> \<le> pi / 4" by (simp add: in_range_Finite abs_if)
  then show ?thesis using in_range_pi[OF r] by (auto simp: Finite)
qed simp_all

section \<open>Rounding errors of the polynomial evaluations\<close>

lemma approxI: "d = Finite A \<Longrightarrow> \<bar>A - a\<bar> \<le> e \<Longrightarrow> approx d a e"
  by (simp add: approx_def)

lemma approxE: assumes "approx d a e" obtains A where "d = Finite A" "\<bar>A - a\<bar> \<le> e"
  using assms by (cases d) (auto simp: approx_def)

lemma approx_exact: "approx (Finite x) x 0"
  by (simp add: approx_def)

lemma approx_weaken: "approx d a e \<Longrightarrow> e \<le> e' \<Longrightarrow> approx d a e'"
  by (cases d) (auto simp: approx_def)

lemma round_err_lt2: assumes "\<bar>y\<bar> < 2" shows "\<bar>round_real y - y\<bar> \<le> 1 / 2 ^ 53"
proof (cases "y = 0")
  case True then show ?thesis by simp
next
  case False
  have "\<bar>y\<bar> < 2 powi 1" using assms by simp
  then have "flog2 y < 1" using False by (rule flog2_less)
  then have "ulp_exp y \<le> - 52" by (simp add: ulp_exp_def)
  then have "(2::real) powi ulp_exp y \<le> 2 powi (- 52)" by (rule powi2_mono)
  then have "(2::real) powi ulp_exp y / 2 \<le> 1 / 2 ^ 53" by (simp add: power_int_minus_divide)
  with round_real_err[of y] show ?thesis by linarith
qed

lemma max_double_ge2: "2 \<le> max_double"
  using max_double_ge by (rule order_trans[rotated]) simp

lemma round_double_lt2:
  assumes "\<bar>y\<bar> < 2"
  shows "approx (round_double y) y (1 / 2 ^ 53)"
proof -
  have "\<bar>y\<bar> \<le> max_double" using assms max_double_ge2 by linarith
  then have "round_double y = Finite (round_real y)" by (rule round_double_bounded)
  then show ?thesis using round_err_lt2[OF assms] by (rule approxI)
qed

lemma approx_mul:
  assumes "approx d1 a e1" "approx d2 b e2" "\<bar>a\<bar> \<le> 1" "\<bar>b\<bar> \<le> 1" "e1 \<le> 1 / 4" "e2 \<le> 1 / 4"
  shows "approx (fmul d1 d2) (a * b) (1 / 2 ^ 53 + e1 + 2 * e2)"
proof -
  from assms(1) obtain A where A: "d1 = Finite A" "\<bar>A - a\<bar> \<le> e1" by (rule approxE)
  from assms(2) obtain B where B: "d2 = Finite B" "\<bar>B - b\<bar> \<le> e2" by (rule approxE)
  have e: "0 \<le> e1" "0 \<le> e2" using A(2) B(2) by linarith+
  have bA: "\<bar>A\<bar> \<le> 5 / 4" using A(2) assms(3,5) by linarith
  have bB: "\<bar>B\<bar> \<le> 5 / 4" using B(2) assms(4,6) by linarith
  have "\<bar>A * B\<bar> \<le> (5 / 4) * (5 / 4)" unfolding abs_mult using bA bB by (intro mult_mono) simp_all
  then have lt: "\<bar>A * B\<bar> < 2" by simp
  have "A * B - a * b = A * (B - b) + b * (A - a)" by (simp add: algebra_simps)
  then have "\<bar>A * B - a * b\<bar> = \<bar>A * (B - b) + b * (A - a)\<bar>" by (rule arg_cong)
  also have "\<dots> \<le> \<bar>A * (B - b)\<bar> + \<bar>b * (A - a)\<bar>" by (rule abs_triangle_ineq)
  also have "\<dots> = \<bar>A\<bar> * \<bar>B - b\<bar> + \<bar>b\<bar> * \<bar>A - a\<bar>" by (simp only: abs_mult)
  also have "\<dots> \<le> (5 / 4) * e2 + 1 * e1"
    using bA B(2) assms(4) A(2) e by (intro add_mono mult_mono) simp_all
  finally have d: "\<bar>A * B - a * b\<bar> \<le> e1 + 2 * e2" using e by simp
  from round_double_lt2[OF lt] obtain R where R: "round_double (A * B) = Finite R"
    "\<bar>R - A * B\<bar> \<le> 1 / 2 ^ 53" by (rule approxE)
  have "\<bar>R - a * b\<bar> \<le> 1 / 2 ^ 53 + e1 + 2 * e2" using R(2) d by linarith
  then show ?thesis using R(1) by (simp add: A(1) B(1) approx_def)
qed

lemma approx_add:
  assumes "approx d1 a e1" "approx d2 b e2" "\<bar>a + b\<bar> \<le> 7 / 4" "e1 + e2 \<le> 1 / 8"
  shows "approx (fadd d1 d2) (a + b) (1 / 2 ^ 53 + e1 + e2)"
proof -
  from assms(1) obtain A where A: "d1 = Finite A" "\<bar>A - a\<bar> \<le> e1" by (rule approxE)
  from assms(2) obtain B where B: "d2 = Finite B" "\<bar>B - b\<bar> \<le> e2" by (rule approxE)
  have d: "\<bar>(A + B) - (a + b)\<bar> \<le> e1 + e2" using A(2) B(2) by linarith
  then have lt: "\<bar>A + B\<bar> < 2" using assms(3,4) by linarith
  from round_double_lt2[OF lt] obtain R where R: "round_double (A + B) = Finite R"
    "\<bar>R - (A + B)\<bar> \<le> 1 / 2 ^ 53" by (rule approxE)
  have "\<bar>R - (a + b)\<bar> \<le> 1 / 2 ^ 53 + e1 + e2" using R(2) d by linarith
  then show ?thesis using R(1) by (simp add: A(1) B(1) approx_def)
qed

lemma approx_coeffs:
  "approx c2 (- (1 / 2)) 0"
  "approx c3 (- (1 / 6)) (1 / 2 ^ 53)"
  "approx c4 (1 / 24) (1 / 2 ^ 53)"
  "approx c5 (1 / 120) (1 / 2 ^ 53)"
  "approx c6 (- (1 / 720)) (1 / 2 ^ 53)"
  "approx c7 (- (1 / 5040)) (1 / 2 ^ 53)"
  "approx c8 (1 / 40320) (1 / 2 ^ 53)"
  "approx c9 (1 / 362880) (1 / 2 ^ 53)"
  "approx c10 (- (1 / 3628800)) (1 / 2 ^ 53)"
  "approx c11 (- (1 / 39916800)) (1 / 2 ^ 53)"
  by (simp_all add: c_eq approx_def)

lemma abs_mul_le_one: "\<bar>a\<bar> \<le> 1 \<Longrightarrow> \<bar>b\<bar> \<le> 1 \<Longrightarrow> \<bar>a * b\<bar> \<le> (1::real)"
  unfolding abs_mult by (rule mult_le_one) simp_all

lemma abs_coeff_le: "\<bar>b\<bar> \<le> 1 \<Longrightarrow> 0 \<le> c \<Longrightarrow> \<bar>k\<bar> \<le> c \<Longrightarrow> \<bar>k * b\<bar> \<le> (c::real)"
  unfolding abs_mult using mult_mono[of "\<bar>k\<bar>" c "\<bar>b\<bar>" 1] by simp

text \<open>
  The rounding errors of the polynomial evaluations, operation by operation: for an
  argument of magnitude at most \<open>4/5\<close> every exact intermediate value has magnitude below
  2, so each operation adds at most \<open>2^-53\<close> to the errors it inherits.
\<close>

lemma sine_poly_approx:
  assumes "\<bar>x\<bar> \<le> 4 / 5"
  shows "approx (spec_sine_poly (Finite x)) (sin11 x) (243 / 2 ^ 53)"
proof -
  have ax: "approx (Finite x) x 0" by (rule approx_exact)
  have bx: "\<bar>x\<bar> \<le> 1" using assms by simp
  define p2 where "p2 = x * x"
  define P2 where "P2 = fmul (Finite x) (Finite x)"
  have bp2: "\<bar>p2\<bar> \<le> 1" unfolding p2_def by (rule abs_mul_le_one[OF bx bx])
  have ap2: "approx P2 p2 (1 / 2 ^ 53)" unfolding p2_def P2_def
    by (rule approx_weaken[OF approx_mul[OF ax ax bx bx]]) simp_all
  define p3 where "p3 = p2 * x"
  define P3 where "P3 = fmul P2 (Finite x)"
  have bp3: "\<bar>p3\<bar> \<le> 1" unfolding p3_def by (rule abs_mul_le_one[OF bp2 bx])
  have ap3: "approx P3 p3 (2 / 2 ^ 53)" unfolding p3_def P3_def
    by (rule approx_weaken[OF approx_mul[OF ap2 ax bp2 bx]]) simp_all
  define p5 where "p5 = p2 * p3"
  define P5 where "P5 = fmul P2 P3"
  have bp5: "\<bar>p5\<bar> \<le> 1" unfolding p5_def by (rule abs_mul_le_one[OF bp2 bp3])
  have ap5: "approx P5 p5 (6 / 2 ^ 53)" unfolding p5_def P5_def
    by (rule approx_weaken[OF approx_mul[OF ap2 ap3 bp2 bp3]]) simp_all
  define p7 where "p7 = p2 * p5"
  define P7 where "P7 = fmul P2 P5"
  have bp7: "\<bar>p7\<bar> \<le> 1" unfolding p7_def by (rule abs_mul_le_one[OF bp2 bp5])
  have ap7: "approx P7 p7 (14 / 2 ^ 53)" unfolding p7_def P7_def
    by (rule approx_weaken[OF approx_mul[OF ap2 ap5 bp2 bp5]]) simp_all
  define p9 where "p9 = p2 * p7"
  define P9 where "P9 = fmul P2 P7"
  have bp9: "\<bar>p9\<bar> \<le> 1" unfolding p9_def by (rule abs_mul_le_one[OF bp2 bp7])
  have ap9: "approx P9 p9 (30 / 2 ^ 53)" unfolding p9_def P9_def
    by (rule approx_weaken[OF approx_mul[OF ap2 ap7 bp2 bp7]]) simp_all
  define p11 where "p11 = p2 * p9"
  define P11 where "P11 = fmul P2 P9"
  have bp11: "\<bar>p11\<bar> \<le> 1" unfolding p11_def by (rule abs_mul_le_one[OF bp2 bp9])
  have ap11: "approx P11 p11 (62 / 2 ^ 53)" unfolding p11_def P11_def
    by (rule approx_weaken[OF approx_mul[OF ap2 ap9 bp2 bp9]]) simp_all
  define t3 where "t3 = - (1 / 6) * p3"
  define T3 where "T3 = fmul c3 P3"
  have bt3: "\<bar>t3\<bar> \<le> 1 / 6" unfolding t3_def by (rule abs_coeff_le[OF bp3]) simp_all
  have at3: "approx T3 t3 (6 / 2 ^ 53)" unfolding t3_def T3_def
    by (rule approx_weaken[OF approx_mul[OF approx_coeffs(2) ap3 _ bp3]]) simp_all
  define t5 where "t5 = 1 / 120 * p5"
  define T5 where "T5 = fmul c5 P5"
  have bt5: "\<bar>t5\<bar> \<le> 1 / 120" unfolding t5_def by (rule abs_coeff_le[OF bp5]) simp_all
  have at5: "approx T5 t5 (14 / 2 ^ 53)" unfolding t5_def T5_def
    by (rule approx_weaken[OF approx_mul[OF approx_coeffs(4) ap5 _ bp5]]) simp_all
  define t7 where "t7 = - (1 / 5040) * p7"
  define T7 where "T7 = fmul c7 P7"
  have bt7: "\<bar>t7\<bar> \<le> 1 / 5040" unfolding t7_def by (rule abs_coeff_le[OF bp7]) simp_all
  have at7: "approx T7 t7 (30 / 2 ^ 53)" unfolding t7_def T7_def
    by (rule approx_weaken[OF approx_mul[OF approx_coeffs(6) ap7 _ bp7]]) simp_all
  define t9 where "t9 = 1 / 362880 * p9"
  define T9 where "T9 = fmul c9 P9"
  have bt9: "\<bar>t9\<bar> \<le> 1 / 362880" unfolding t9_def by (rule abs_coeff_le[OF bp9]) simp_all
  have at9: "approx T9 t9 (62 / 2 ^ 53)" unfolding t9_def T9_def
    by (rule approx_weaken[OF approx_mul[OF approx_coeffs(8) ap9 _ bp9]]) simp_all
  define t11 where "t11 = - (1 / 39916800) * p11"
  define T11 where "T11 = fmul c11 P11"
  have bt11: "\<bar>t11\<bar> \<le> 1 / 39916800" unfolding t11_def by (rule abs_coeff_le[OF bp11]) simp_all
  have at11: "approx T11 t11 (126 / 2 ^ 53)" unfolding t11_def T11_def
    by (rule approx_weaken[OF approx_mul[OF approx_coeffs(10) ap11 _ bp11]]) simp_all
  define s3 where "s3 = x + t3"
  define S3 where "S3 = fadd (Finite x) T3"
  have bs3: "\<bar>s3\<bar> \<le> 1" unfolding s3_def using assms bt3 by linarith
  have as3: "approx S3 s3 (7 / 2 ^ 53)" unfolding s3_def S3_def
    by (rule approx_weaken[OF approx_add[OF ax at3]]) (use bs3 in \<open>simp_all add: s3_def\<close>)
  define s5 where "s5 = s3 + t5"
  define S5 where "S5 = fadd S3 T5"
  have bs5: "\<bar>s5\<bar> \<le> 1 + 1 / 120" unfolding s5_def using bs3 bt5 by linarith
  have as5: "approx S5 s5 (22 / 2 ^ 53)" unfolding s5_def S5_def
    by (rule approx_weaken[OF approx_add[OF as3 at5]]) (use bs5 in \<open>simp_all add: s5_def\<close>)
  define s7 where "s7 = s5 + t7"
  define S7 where "S7 = fadd S5 T7"
  have bs7: "\<bar>s7\<bar> \<le> 1 + 1 / 60" unfolding s7_def using bs5 bt7 by linarith
  have as7: "approx S7 s7 (53 / 2 ^ 53)" unfolding s7_def S7_def
    by (rule approx_weaken[OF approx_add[OF as5 at7]]) (use bs7 in \<open>simp_all add: s7_def\<close>)
  define s9 where "s9 = s7 + t9"
  define S9 where "S9 = fadd S7 T9"
  have bs9: "\<bar>s9\<bar> \<le> 1 + 1 / 40" unfolding s9_def using bs7 bt9 by linarith
  have as9: "approx S9 s9 (116 / 2 ^ 53)" unfolding s9_def S9_def
    by (rule approx_weaken[OF approx_add[OF as7 at9]]) (use bs9 in \<open>simp_all add: s9_def\<close>)
  define s11 where "s11 = s9 + t11"
  define S11 where "S11 = fadd S9 T11"
  have bs11: "\<bar>s11\<bar> \<le> 1 + 1 / 30" unfolding s11_def using bs9 bt11 by linarith
  have as11: "approx S11 s11 (243 / 2 ^ 53)" unfolding s11_def S11_def
    by (rule approx_weaken[OF approx_add[OF as9 at11]]) (use bs11 in \<open>simp_all add: s11_def\<close>)
  have "spec_sine_poly (Finite x) = S11"
    by (simp add: spec_sine_poly_def Let_def P2_def P3_def P5_def P7_def P9_def P11_def T3_def T5_def T7_def T9_def T11_def S3_def S5_def S7_def S9_def S11_def)
  moreover have "sin11 x = s11"
    by (simp add: sin11_def p2_def p3_def p5_def p7_def p9_def p11_def t3_def t5_def t7_def t9_def t11_def s3_def s5_def s7_def s9_def s11_def power_numeral_reduce algebra_simps)
  ultimately show ?thesis using as11 by simp
qed

lemma cosine_poly_approx:
  assumes "\<bar>x\<bar> \<le> 4 / 5"
  shows "approx (spec_cosine_poly (Finite x)) (cos10 x) (180 / 2 ^ 53)"
proof -
  have ax: "approx (Finite x) x 0" by (rule approx_exact)
  have bx: "\<bar>x\<bar> \<le> 1" using assms by simp
  define p2 where "p2 = x * x"
  define P2 where "P2 = fmul (Finite x) (Finite x)"
  have bp2: "\<bar>p2\<bar> \<le> 1" unfolding p2_def by (rule abs_mul_le_one[OF bx bx])
  have ap2: "approx P2 p2 (1 / 2 ^ 53)" unfolding p2_def P2_def
    by (rule approx_weaken[OF approx_mul[OF ax ax bx bx]]) simp_all
  define p4 where "p4 = p2 * p2"
  define P4 where "P4 = fmul P2 P2"
  have bp4: "\<bar>p4\<bar> \<le> 1" unfolding p4_def by (rule abs_mul_le_one[OF bp2 bp2])
  have ap4: "approx P4 p4 (4 / 2 ^ 53)" unfolding p4_def P4_def
    by (rule approx_weaken[OF approx_mul[OF ap2 ap2 bp2 bp2]]) simp_all
  define p6 where "p6 = p2 * p4"
  define P6 where "P6 = fmul P2 P4"
  have bp6: "\<bar>p6\<bar> \<le> 1" unfolding p6_def by (rule abs_mul_le_one[OF bp2 bp4])
  have ap6: "approx P6 p6 (10 / 2 ^ 53)" unfolding p6_def P6_def
    by (rule approx_weaken[OF approx_mul[OF ap2 ap4 bp2 bp4]]) simp_all
  define p8 where "p8 = p2 * p6"
  define P8 where "P8 = fmul P2 P6"
  have bp8: "\<bar>p8\<bar> \<le> 1" unfolding p8_def by (rule abs_mul_le_one[OF bp2 bp6])
  have ap8: "approx P8 p8 (22 / 2 ^ 53)" unfolding p8_def P8_def
    by (rule approx_weaken[OF approx_mul[OF ap2 ap6 bp2 bp6]]) simp_all
  define p10 where "p10 = p2 * p8"
  define P10 where "P10 = fmul P2 P8"
  have bp10: "\<bar>p10\<bar> \<le> 1" unfolding p10_def by (rule abs_mul_le_one[OF bp2 bp8])
  have ap10: "approx P10 p10 (46 / 2 ^ 53)" unfolding p10_def P10_def
    by (rule approx_weaken[OF approx_mul[OF ap2 ap8 bp2 bp8]]) simp_all
  define t2 where "t2 = - (1 / 2) * p2"
  define T2 where "T2 = fmul c2 P2"
  have bt2: "\<bar>t2\<bar> \<le> 1 / 2" unfolding t2_def by (rule abs_coeff_le[OF bp2]) simp_all
  have at2: "approx T2 t2 (3 / 2 ^ 53)" unfolding t2_def T2_def
    by (rule approx_weaken[OF approx_mul[OF approx_coeffs(1) ap2 _ bp2]]) simp_all
  define t4 where "t4 = 1 / 24 * p4"
  define T4 where "T4 = fmul c4 P4"
  have bt4: "\<bar>t4\<bar> \<le> 1 / 24" unfolding t4_def by (rule abs_coeff_le[OF bp4]) simp_all
  have at4: "approx T4 t4 (10 / 2 ^ 53)" unfolding t4_def T4_def
    by (rule approx_weaken[OF approx_mul[OF approx_coeffs(3) ap4 _ bp4]]) simp_all
  define t6 where "t6 = - (1 / 720) * p6"
  define T6 where "T6 = fmul c6 P6"
  have bt6: "\<bar>t6\<bar> \<le> 1 / 720" unfolding t6_def by (rule abs_coeff_le[OF bp6]) simp_all
  have at6: "approx T6 t6 (22 / 2 ^ 53)" unfolding t6_def T6_def
    by (rule approx_weaken[OF approx_mul[OF approx_coeffs(5) ap6 _ bp6]]) simp_all
  define t8 where "t8 = 1 / 40320 * p8"
  define T8 where "T8 = fmul c8 P8"
  have bt8: "\<bar>t8\<bar> \<le> 1 / 40320" unfolding t8_def by (rule abs_coeff_le[OF bp8]) simp_all
  have at8: "approx T8 t8 (46 / 2 ^ 53)" unfolding t8_def T8_def
    by (rule approx_weaken[OF approx_mul[OF approx_coeffs(7) ap8 _ bp8]]) simp_all
  define t10 where "t10 = - (1 / 3628800) * p10"
  define T10 where "T10 = fmul c10 P10"
  have bt10: "\<bar>t10\<bar> \<le> 1 / 3628800" unfolding t10_def by (rule abs_coeff_le[OF bp10]) simp_all
  have at10: "approx T10 t10 (94 / 2 ^ 53)" unfolding t10_def T10_def
    by (rule approx_weaken[OF approx_mul[OF approx_coeffs(9) ap10 _ bp10]]) simp_all
  define s2 where "s2 = 1 + t2"
  define S2 where "S2 = fadd (Finite 1) T2"
  have bs2: "\<bar>s2\<bar> \<le> 3 / 2" unfolding s2_def using bt2 by linarith
  have as2: "approx S2 s2 (4 / 2 ^ 53)" unfolding s2_def S2_def
    by (rule approx_weaken[OF approx_add[OF approx_exact at2]]) (use bs2 in \<open>simp_all add: s2_def\<close>)
  define s4 where "s4 = s2 + t4"
  define S4 where "S4 = fadd S2 T4"
  have bs4: "\<bar>s4\<bar> \<le> 3 / 2 + 1 / 24" unfolding s4_def using bs2 bt4 by linarith
  have as4: "approx S4 s4 (15 / 2 ^ 53)" unfolding s4_def S4_def
    by (rule approx_weaken[OF approx_add[OF as2 at4]]) (use bs4 in \<open>simp_all add: s4_def\<close>)
  define s6 where "s6 = s4 + t6"
  define S6 where "S6 = fadd S4 T6"
  have bs6: "\<bar>s6\<bar> \<le> 3 / 2 + 1 / 20" unfolding s6_def using bs4 bt6 by linarith
  have as6: "approx S6 s6 (38 / 2 ^ 53)" unfolding s6_def S6_def
    by (rule approx_weaken[OF approx_add[OF as4 at6]]) (use bs6 in \<open>simp_all add: s6_def\<close>)
  define s8 where "s8 = s6 + t8"
  define S8 where "S8 = fadd S6 T8"
  have bs8: "\<bar>s8\<bar> \<le> 3 / 2 + 1 / 15" unfolding s8_def using bs6 bt8 by linarith
  have as8: "approx S8 s8 (85 / 2 ^ 53)" unfolding s8_def S8_def
    by (rule approx_weaken[OF approx_add[OF as6 at8]]) (use bs8 in \<open>simp_all add: s8_def\<close>)
  define s10 where "s10 = s8 + t10"
  define S10 where "S10 = fadd S8 T10"
  have bs10: "\<bar>s10\<bar> \<le> 3 / 2 + 1 / 10" unfolding s10_def using bs8 bt10 by linarith
  have as10: "approx S10 s10 (180 / 2 ^ 53)" unfolding s10_def S10_def
    by (rule approx_weaken[OF approx_add[OF as8 at10]]) (use bs10 in \<open>simp_all add: s10_def\<close>)
  have "spec_cosine_poly (Finite x) = S10"
    by (simp add: spec_cosine_poly_def Let_def P2_def P4_def P6_def P8_def P10_def T2_def T4_def T6_def T8_def T10_def S2_def S4_def S6_def S8_def S10_def)
  moreover have "cos10 x = s10"
    by (simp add: cos10_def p2_def p4_def p6_def p8_def p10_def t2_def t4_def t6_def t8_def t10_def s2_def s4_def s6_def s8_def s10_def power_numeral_reduce algebra_simps)
  ultimately show ?thesis using as10 by simp
qed

lemma sine_poly3_approx:
  assumes "\<bar>x\<bar> \<le> 4 / 5"
  shows "approx (spec_sine_poly3 (Finite x)) (sin3 x) (7 / 2 ^ 53)"
proof -
  have ax: "approx (Finite x) x 0" by (rule approx_exact)
  have bx: "\<bar>x\<bar> \<le> 1" using assms by simp
  define p2 where "p2 = x * x"
  define P2 where "P2 = fmul (Finite x) (Finite x)"
  have bp2: "\<bar>p2\<bar> \<le> 1" unfolding p2_def by (rule abs_mul_le_one[OF bx bx])
  have ap2: "approx P2 p2 (1 / 2 ^ 53)" unfolding p2_def P2_def
    by (rule approx_weaken[OF approx_mul[OF ax ax bx bx]]) simp_all
  define p3 where "p3 = p2 * x"
  define P3 where "P3 = fmul P2 (Finite x)"
  have bp3: "\<bar>p3\<bar> \<le> 1" unfolding p3_def by (rule abs_mul_le_one[OF bp2 bx])
  have ap3: "approx P3 p3 (2 / 2 ^ 53)" unfolding p3_def P3_def
    by (rule approx_weaken[OF approx_mul[OF ap2 ax bp2 bx]]) simp_all
  define t3 where "t3 = - (1 / 6) * p3"
  define T3 where "T3 = fmul c3 P3"
  have bt3: "\<bar>t3\<bar> \<le> 1 / 6" unfolding t3_def by (rule abs_coeff_le[OF bp3]) simp_all
  have at3: "approx T3 t3 (6 / 2 ^ 53)" unfolding t3_def T3_def
    by (rule approx_weaken[OF approx_mul[OF approx_coeffs(2) ap3 _ bp3]]) simp_all
  define s3 where "s3 = x + t3"
  define S3 where "S3 = fadd (Finite x) T3"
  have bs3: "\<bar>s3\<bar> \<le> 1" unfolding s3_def using assms bt3 by linarith
  have as3: "approx S3 s3 (7 / 2 ^ 53)" unfolding s3_def S3_def
    by (rule approx_weaken[OF approx_add[OF ax at3]]) (use bs3 in \<open>simp_all add: s3_def\<close>)
  have "spec_sine_poly3 (Finite x) = S3"
    by (simp add: spec_sine_poly3_def Let_def P2_def P3_def T3_def S3_def)
  moreover have "sin3 x = s3"
    by (simp add: sin3_def p2_def p3_def t3_def s3_def power_numeral_reduce algebra_simps)
  ultimately show ?thesis using as3 by simp
qed

section \<open>Accuracy of the reconstructed sine\<close>

lemma sin_poly_13:
  "(\<Sum>m<13. sin_coeff m * x ^ m) = sin11 x"
  by (simp add: lessThan_nat_numeral sin_coeff_def fact_numeral sin11_def)

lemma cos_poly_12:
  "(\<Sum>m<12. cos_coeff m * x ^ m) = cos10 x"
  by (simp add: lessThan_nat_numeral cos_coeff_def fact_numeral cos10_def)

lemma Maclaurin_cos_bound:
  "\<bar>cos x - (\<Sum>m<n. cos_coeff m * x ^ m)\<bar> \<le> \<bar>x\<bar> ^ n / fact n"
proof -
  obtain t where t: "cos x = (\<Sum>m<n. cos_coeff m * x ^ m) + (cos (t + 1/2 * real n * pi) / fact n) * x ^ n"
    using Maclaurin_cos_expansion[of x n] by blast
  have "\<bar>cos x - (\<Sum>m<n. cos_coeff m * x ^ m)\<bar> = \<bar>cos (t + 1/2 * real n * pi)\<bar> * (\<bar>x\<bar> ^ n / fact n)"
    unfolding t by (simp add: abs_mult power_abs)
  also have "\<dots> \<le> 1 * (\<bar>x\<bar> ^ n / fact n)"
    by (intro mult_right_mono) simp_all
  finally show ?thesis by simp
qed

lemma sin11_trunc: assumes "\<bar>x\<bar> \<le> 4 / 5" shows "\<bar>sin x - sin11 x\<bar> \<le> 1 / 10 ^ 11"
proof -
  have "\<bar>x\<bar> ^ 13 \<le> (4 / 5) ^ 13" using assms by (intro power_mono) simp_all
  then have "inverse (fact 13) * \<bar>x\<bar> ^ 13 \<le> inverse (fact 13) * (4 / 5) ^ 13"
    by (intro mult_left_mono) simp_all
  also have "\<dots> \<le> 1 / 10 ^ 11" by (simp add: fact_numeral power_divide)
  finally show ?thesis using Maclaurin_sin_bound[of x 13] unfolding sin_poly_13 by linarith
qed

lemma cos10_trunc: assumes "\<bar>x\<bar> \<le> 4 / 5" shows "\<bar>cos x - cos10 x\<bar> \<le> 15 / 10 ^ 11"
proof -
  have "\<bar>x\<bar> ^ 12 \<le> (4 / 5) ^ 12" using assms by (intro power_mono) simp_all
  then have "\<bar>x\<bar> ^ 12 / fact 12 \<le> (4 / 5) ^ 12 / fact 12"
    by (intro divide_right_mono) simp_all
  also have "\<dots> \<le> 15 / 10 ^ 11" by (simp add: fact_numeral power_divide)
  finally show ?thesis using Maclaurin_cos_bound[of x 12] unfolding cos_poly_12 by linarith
qed

lemma sin_lipschitz: "\<bar>sin x - sin y\<bar> \<le> \<bar>x - y\<bar>" for x y :: real
proof -
  have "\<bar>sin x - sin y\<bar> = 2 * \<bar>sin ((x - y) / 2)\<bar> * \<bar>cos ((x + y) / 2)\<bar>"
    by (simp add: sin_diff_sin abs_mult)
  also have "\<dots> \<le> 2 * \<bar>(x - y) / 2\<bar> * 1"
    by (intro mult_mono abs_sin_x_le_abs_x) simp_all
  finally show ?thesis by simp
qed

lemma cos_lipschitz: "\<bar>cos x - cos y\<bar> \<le> \<bar>x - y\<bar>" for x y :: real
proof -
  have "\<bar>cos x - cos y\<bar> = 2 * \<bar>sin ((x + y) / 2)\<bar> * \<bar>sin ((y - x) / 2)\<bar>"
    by (simp add: cos_diff_cos abs_mult)
  also have "\<dots> \<le> 2 * 1 * \<bar>(y - x) / 2\<bar>"
    by (intro mult_mono abs_sin_x_le_abs_x) simp_all
  finally show ?thesis by simp
qed

lemma rval_lipschitz: "\<bar>rval x sg sc - rval y sg sc\<bar> \<le> \<bar>x - y\<bar>"
  using sin_lipschitz[of x y] cos_lipschitz[of x y] by (auto simp: rval_def)

lemma rval_sub: "rval (x - pi / 2) (if sc then sg else \<not> sg) (\<not> sc) = rval x sg sc"
  by (simp add: rval_def sin_diff cos_diff)

lemma rval_add: "rval (x + pi / 2) (if sc then \<not> sg else sg) (\<not> sc) = rval x sg sc"
  by (simp add: rval_def sin_add cos_add)

lemma round_err_bound:
  assumes "\<bar>y\<bar> < 2 powi k" "- 1021 \<le> k"
  shows "\<bar>round_real y - y\<bar> \<le> 2 powi (k - 54)"
proof (cases "y = 0")
  case True then show ?thesis by simp
next
  case False
  have "flog2 y < k" using assms(1) False by (rule flog2_less)
  then have "ulp_exp y \<le> k - 53" using assms(2) by (simp add: ulp_exp_def)
  then have "(2::real) powi ulp_exp y \<le> 2 powi (k - 53)" by (rule powi2_mono)
  moreover have "(2::real) powi (k - 53) = 2 * 2 powi (k - 54)"
    using powi2_split[of 1 "k - 54"] by simp
  ultimately show ?thesis using round_real_err[of y] by linarith
qed

lemma sub_err:
  assumes "P4r < x" "x \<le> 1024"
  shows "\<bar>round_real (x - P2r) - (x - pi / 2)\<bar> \<le> 1 / 2 ^ 44 + 1 / 10 ^ 16"
proof -
  have "\<bar>x - P2r\<bar> < 2 powi 10" using assms by (simp add: abs_if)
  then have "\<bar>round_real (x - P2r) - (x - P2r)\<bar> \<le> 2 powi (10 - 54)"
    by (rule round_err_bound) simp
  then have "\<bar>round_real (x - P2r) - (x - P2r)\<bar> \<le> 1 / 2 ^ 44"
    by (simp add: power_int_minus_divide)
  then show ?thesis using pi_half_close by linarith
qed

lemma angle_body_flags:
  "sign (angle_body s) =
     (if flt (angle s) (fdiv (fneg M_PI) (Finite 4))
      then (if sin_cos s then \<not> sign s else sign s)
      else (if sin_cos s then sign s else \<not> sign s))"
  "sin_cos (angle_body s) = (\<not> sin_cos s)"
  by (simp_all add: angle_body_def Let_def)

text \<open>One iteration changes the sine that the state stands for by at most the rounding
  error of the subtraction plus the distance between \<^verbatim>\<open>M_PI/2\<close> and \<open>\<pi>/2\<close>.\<close>

lemma angle_body_val:
  assumes "angle s = Finite x" "representable x" "\<bar>x\<bar> \<le> 1024" "angle_cond s"
  shows "\<bar>state_val (angle_body s) - state_val s\<bar> \<le> 1 / 2 ^ 44 + 1 / 10 ^ 16"
proof -
  from assms(1,4) consider "P4r < x" | "x < - P4r" by (auto simp: angle_cond_Finite)
  then show ?thesis
  proof cases
    case 1
    note pos = 1
    let ?x' = "round_real (x - P2r)"
    have a: "angle (angle_body s) = Finite ?x'" by (rule angle_body_pos[OF assms(1,2) pos])
    have nl: "\<not> flt (angle s) (fdiv (fneg M_PI) (Finite 4))"
      using pos by (simp add: assms(1) neg_M_PI_4_eq)
    have "state_val (angle_body s) = rval ?x' (if sin_cos s then sign s else \<not> sign s) (\<not> sin_cos s)"
      by (simp add: state_val_def a angle_body_flags nl)
    moreover have "state_val s = rval (x - pi / 2) (if sin_cos s then sign s else \<not> sign s) (\<not> sin_cos s)"
      by (simp only: rval_sub) (simp add: state_val_def assms(1))
    moreover have "\<bar>?x' - (x - pi / 2)\<bar> \<le> 1 / 2 ^ 44 + 1 / 10 ^ 16"
      by (rule sub_err[OF pos]) (use assms(3) in linarith)
    ultimately show ?thesis
      using rval_lipschitz[of ?x' "if sin_cos s then sign s else \<not> sign s" "\<not> sin_cos s" "x - pi / 2"]
      by linarith
  next
    case 2
    note neg = 2
    let ?y = "round_real (- x - P2r)"
    have a: "angle (angle_body s) = Finite (- ?y)" by (rule angle_body_neg[OF assms(1,2) neg])
    have nl: "flt (angle s) (fdiv (fneg M_PI) (Finite 4))"
      using neg by (simp add: assms(1) neg_M_PI_4_eq)
    have "state_val (angle_body s) = rval (- ?y) (if sin_cos s then \<not> sign s else sign s) (\<not> sin_cos s)"
      by (simp add: state_val_def a angle_body_flags nl)
    moreover have "state_val s = rval (x + pi / 2) (if sin_cos s then \<not> sign s else sign s) (\<not> sin_cos s)"
      by (simp only: rval_add) (simp add: state_val_def assms(1))
    moreover have "\<bar>?y - (- x - pi / 2)\<bar> \<le> 1 / 2 ^ 44 + 1 / 10 ^ 16"
      by (rule sub_err) (use neg assms(3) in \<open>simp_all add: abs_if split: if_splits\<close>)
    then have "\<bar>- ?y - (x + pi / 2)\<bar> \<le> 1 / 2 ^ 44 + 1 / 10 ^ 16" by linarith
    ultimately show ?thesis
      using rval_lipschitz[of "- ?y" "if sin_cos s then \<not> sign s else sign s" "\<not> sin_cos s" "x + pi / 2"]
      by linarith
  qed
qed

lemma angle_while_val:
  "angle s = Finite x \<Longrightarrow> representable x \<Longrightarrow> \<bar>x\<bar> \<le> 1024 \<Longrightarrow> \<bar>x\<bar> \<le> real n / 2 \<Longrightarrow>
   \<exists>r y. angle_while s = Some r \<and> angle r = Finite y \<and> representable y \<and> \<bar>y\<bar> \<le> P4r \<and>
     \<bar>state_val r - state_val s\<bar> \<le> real n * (1 / 2 ^ 44 + 1 / 10 ^ 16)"
proof (induction n arbitrary: s x)
  case 0
  then have "\<not> angle_cond s" by (simp add: angle_cond_Finite)
  then have "angle_while s = Some s" by (rule angle_while_exit)
  then show ?case using 0 by auto
next
  case (Suc n)
  let ?e = "1 / 2 ^ 44 + 1 / 10 ^ 16 :: real"
  show ?case
  proof (cases "angle_cond s")
    case False
    then have "angle_while s = Some s" by (rule angle_while_exit)
    moreover have "\<bar>x\<bar> \<le> P4r" using False Suc.prems(1) by (auto simp: angle_cond_Finite)
    moreover have "0 \<le> real (Suc n) * ?e" by simp
    ultimately show ?thesis using Suc.prems(1,2) by auto
  next
    case True
    have step: "\<bar>state_val (angle_body s) - state_val s\<bar> \<le> ?e"
      by (rule angle_body_val[OF Suc.prems(1,2,3) True])
    have le54: "\<bar>x\<bar> \<le> 2 ^ 54" using Suc.prems(3) by simp
    show ?thesis
    proof (rule angle_body_finite[OF Suc.prems(1,2) True])
      fix x'
      assume a: "angle (angle_body s) = Finite x'" and r: "representable x'"
        and le: "\<bar>x'\<bar> \<le> \<bar>x\<bar>"
        and dec: "\<bar>x\<bar> \<le> 2 ^ 54 \<Longrightarrow> \<bar>x'\<bar> \<le> P4r \<or> \<bar>x'\<bar> \<le> \<bar>x\<bar> - 1 / 2"
      have "\<exists>r y. angle_while (angle_body s) = Some r \<and> angle r = Finite y \<and> representable y
          \<and> \<bar>y\<bar> \<le> P4r \<and> \<bar>state_val r - state_val (angle_body s)\<bar> \<le> real n * ?e"
        using dec[OF le54]
      proof
        assume small: "\<bar>x'\<bar> \<le> P4r"
        then have "\<not> angle_cond (angle_body s)" using a by (simp add: angle_cond_Finite abs_if split: if_splits)
        then have "angle_while (angle_body s) = Some (angle_body s)" by (rule angle_while_exit)
        moreover have "0 \<le> real n * ?e" by simp
        ultimately show ?thesis using a r small by auto
      next
        assume "\<bar>x'\<bar> \<le> \<bar>x\<bar> - 1 / 2"
        then have "\<bar>x'\<bar> \<le> real n / 2" using Suc.prems(4) by simp
        moreover have "\<bar>x'\<bar> \<le> 1024" using le Suc.prems(3) by simp
        ultimately show ?thesis using Suc.IH[OF a r] by blast
      qed
      then obtain t y where t: "angle_while (angle_body s) = Some t" "angle t = Finite y"
        "representable y" "\<bar>y\<bar> \<le> P4r" "\<bar>state_val t - state_val (angle_body s)\<bar> \<le> real n * ?e"
        by blast
      have "\<bar>state_val t - state_val s\<bar> \<le> real n * ?e + ?e" using t(5) step by linarith
      also have "\<dots> = real (Suc n) * ?e" by (simp add: algebra_simps)
      finally have "\<bar>state_val t - state_val s\<bar> \<le> real (Suc n) * ?e" .
      moreover have "angle_while s = Some t" using t(1) by (simp add: angle_while_iterate[OF True])
      ultimately show ?thesis using t(2,3,4) by blast
    qed
  qed
qed

lemma fmul_minus_one: "wf_double d \<Longrightarrow> fmul d (Finite (- 1)) = fneg d"
  by (cases d) (auto simp: wf_double_def signed_inf_def round_double_representable representable_minus)

lemma abs_diff_chain: "\<bar>v - m\<bar> \<le> a \<Longrightarrow> \<bar>m - s\<bar> \<le> b \<Longrightarrow> \<bar>v - s\<bar> \<le> a + (b::real)"
  by linarith

lemma P4r_le: "P4r \<le> 4 / 5"
  by simp

lemma lane_value:
  assumes "\<bar>y\<bar> \<le> 4 / 5"
  shows "\<exists>v. (if sc then fmul (spec_sine_poly (Finite y)) (if sg then Finite 1 else Finite (- 1))
              else fmul (spec_cosine_poly (Finite y)) (if sg then Finite 1 else Finite (- 1))) = Finite v
           \<and> \<bar>v - rval y sg sc\<bar> \<le> 15 / 10 ^ 11 + 243 / 2 ^ 53"
proof (cases sc)
  case True
  from sine_poly_approx[OF assms] obtain V where V: "spec_sine_poly (Finite y) = Finite V"
    "\<bar>V - sin11 y\<bar> \<le> 243 / 2 ^ 53" by (rule approxE)
  have w: "wf_double (Finite V)" using wf_sine_poly[of "Finite y"] by (simp only: V(1))
  have e: "\<bar>V - sin y\<bar> \<le> 15 / 10 ^ 11 + 243 / 2 ^ 53" using V(2) sin11_trunc[OF assms] by linarith
  show ?thesis
  proof (cases sg)
    case True
    have "fmul (Finite V) (Finite 1) = Finite V" by (rule fmul_one[OF w])
    then show ?thesis using e \<open>sc\<close> True by (simp add: V(1) rval_def)
  next
    case False
    have "fmul (Finite V) (Finite (- 1)) = Finite (- V)" using fmul_minus_one[OF w] by simp
    moreover have "\<bar>- V - - sin y\<bar> \<le> 15 / 10 ^ 11 + 243 / 2 ^ 53" using e by linarith
    ultimately show ?thesis using \<open>sc\<close> False by (simp add: V(1) rval_def)
  qed
next
  case False
  from cosine_poly_approx[OF assms] obtain V where V: "spec_cosine_poly (Finite y) = Finite V"
    "\<bar>V - cos10 y\<bar> \<le> 180 / 2 ^ 53" by (rule approxE)
  have w: "wf_double (Finite V)" using wf_cosine_poly[of "Finite y"] by (simp only: V(1))
  have e: "\<bar>V - cos y\<bar> \<le> 15 / 10 ^ 11 + 243 / 2 ^ 53" using V(2) cos10_trunc[OF assms] by linarith
  show ?thesis
  proof (cases sg)
    case True
    have "fmul (Finite V) (Finite 1) = Finite V" by (rule fmul_one[OF w])
    then show ?thesis using e \<open>\<not> sc\<close> True by (simp add: V(1) rval_def)
  next
    case sgF: False
    have "fmul (Finite V) (Finite (- 1)) = Finite (- V)" using fmul_minus_one[OF w] by simp
    moreover have "\<bar>- V - - cos y\<bar> \<le> 15 / 10 ^ 11 + 243 / 2 ^ 53" using e by linarith
    ultimately show ?thesis using \<open>\<not> sc\<close> sgF by (simp add: V(1) rval_def)
  qed
qed

lemma sin4_taylor_const_flags:
  "sin4_taylor sinx (\<lambda>i. a) (Some (\<lambda>i. sg)) (Some (\<lambda>i. sc)) = Inr (\<lambda>i. if i < 4 then
     (if sc then fmul (spec_sine_poly a) (if sg then Finite 1 else Finite (- 1))
      else fmul (spec_cosine_poly a) (if sg then Finite 1 else Finite (- 1)))
     else sinx i)"
  by (rule sin4_taylor_flags)


lemma abs_scale: "0 \<le> c \<Longrightarrow> \<bar>c * z\<bar> = c * \<bar>z :: real\<bar>"
  by (simp add: abs_mult)

lemma sin_3P4r: "\<bar>sin (2652839157010665 / 2 ^ 50 :: real) - sqrt 2 / 2\<bar> \<le> 2 / 10 ^ 16"
proof -
  have "(2652839157010665 / 2 ^ 50 :: real) - 3 * pi / 4 = 3 / 2 * (P2r - pi / 2)" by simp
  then have "\<bar>(2652839157010665 / 2 ^ 50 :: real) - 3 * pi / 4\<bar> = \<bar>3 / 2 * (P2r - pi / 2)\<bar>"
    by (rule arg_cong)
  also have "\<dots> = 3 / 2 * \<bar>P2r - pi / 2\<bar>" by (rule abs_scale) simp
  also have "\<dots> \<le> 3 / 2 * (1 / 10 ^ 16)" using pi_half_close by (intro mult_left_mono) simp_all
  finally have "\<bar>(2652839157010665 / 2 ^ 50 :: real) - 3 * pi / 4\<bar> \<le> 2 / 10 ^ 16" by simp
  then have "\<bar>sin (2652839157010665 / 2 ^ 50 :: real) - sin (3 * pi / 4)\<bar> \<le> 2 / 10 ^ 16"
    using sin_lipschitz[of "2652839157010665 / 2 ^ 50" "3 * pi / 4"] by linarith
  then show ?thesis by (simp only: sin_3pi4)
qed

section \<open>The maximum errors of the strategies\<close>

lemma round_real_abs: "\<bar>round_real z\<bar> = round_real \<bar>z\<bar>"
proof (cases "0 \<le> z")
  case True
  then show ?thesis using round_real_nonneg[of z] by simp
next
  case False
  then have "0 \<le> round_real (- z)" by (intro round_real_nonneg) simp
  then show ?thesis using False by (simp add: round_real_minus)
qed

lemma lane_diff:
  assumes "\<bar>y\<bar> \<le> 2" "\<bar>A\<bar> \<le> 2"
  shows "fabs (fsub (Finite y) (Finite A)) = Finite (round_real \<bar>y - A\<bar>)"
proof -
  have "\<bar>y - A\<bar> \<le> 2 ^ 54" using assms by (simp add: abs_if split: if_splits)
  then have "\<bar>y - A\<bar> \<le> max_double" using max_double_ge by linarith
  then show ?thesis by (simp add: fsub_def round_double_bounded round_real_abs)
qed

lemma err_4:
  assumes "\<And>i. i < 4 \<Longrightarrow> fabs (fsub (a i) (b i)) = Finite (r i)"
  shows "err a b 4 = Finite (max (max (max (max 0 (r 0)) (r 1)) (r 2)) (r 3))"
proof -
  have "fabs (fsub (a 0) (b 0)) = Finite (r 0)" "fabs (fsub (a 1) (b 1)) = Finite (r 1)"
    "fabs (fsub (a 2) (b 2)) = Finite (r 2)" "fabs (fsub (a 3) (b 3)) = Finite (r 3)"
    by (rule assms, simp)+
  then show ?thesis
    by (simp add: err_def upt4 fmax_def max_def)
qed

lemma max4_le:
  fixes r :: "nat \<Rightarrow> real"
  assumes "\<And>i. i < 4 \<Longrightarrow> r i \<le> c" "0 \<le> c"
  shows "max (max (max (max 0 (r 0)) (r 1)) (r 2)) (r 3) \<le> c"
  using assms(1)[of 0] assms(1)[of 1] assms(1)[of 2] assms(1)[of 3] assms(2) by simp

lemma max4_ge:
  fixes r :: "nat \<Rightarrow> real"
  assumes "j < 4" "c \<le> r j"
  shows "c \<le> max (max (max (max 0 (r 0)) (r 1)) (r 2)) (r 3)"
  using assms unfolding lt4 by (elim disjE) (simp_all add: le_max_iff_disj)

lemma Maclaurin_sin_7:
  "(\<Sum>m<7. sin_coeff m * x ^ m) = sin3 x + x ^ 5 / 120"
  by (simp add: lessThan_nat_numeral sin_coeff_def fact_numeral sin3_def)

text \<open>The degree-3 truncation misses the sine by about \<open>x\<^sup>5/120\<close>.\<close>

lemma sin3_gap:
  assumes "1 / 32 \<le> \<bar>x\<bar>" "\<bar>x\<bar> \<le> 1"
  shows "24 / 10 ^ 11 \<le> \<bar>sin x - sin3 x\<bar>"
proof -
  define t where "t = \<bar>x\<bar>"
  have t: "1 / 32 \<le> t" "t \<le> 1" "0 \<le> t" using assms by (simp_all add: t_def)
  have "\<bar>sin x - (sin3 x + x ^ 5 / 120)\<bar> \<le> inverse (fact 7) * \<bar>x\<bar> ^ 7"
    using Maclaurin_sin_bound[of x 7] by (simp only: Maclaurin_sin_7)
  then have r: "\<bar>sin x - (sin3 x + x ^ 5 / 120)\<bar> \<le> t ^ 7 / 5040"
    by (simp add: fact_numeral t_def)
  have "t ^ 7 = t ^ 5 * t ^ 2" by (simp add: power_add[symmetric])
  also have "\<dots> \<le> t ^ 5 * 1" using t by (intro mult_left_mono power_le_one) simp_all
  finally have t7: "t ^ 7 \<le> t ^ 5" by simp
  have t5: "(1 / 32) ^ 5 \<le> t ^ 5" using t by (intro power_mono) simp_all
  have "\<bar>x ^ 5 / 120\<bar> = t ^ 5 / 120" by (simp add: t_def power_abs)
  then have "t ^ 5 / 120 - t ^ 7 / 5040 \<le> \<bar>sin x - sin3 x\<bar>" using r by linarith
  moreover have "24 / 10 ^ 11 \<le> t ^ 5 / 120 - t ^ 7 / 5040"
  proof -
    have "(24 / 10 ^ 11 :: real) \<le> (1 / 32) ^ 5 * (41 / 5040)" by (simp add: power_divide)
    also have "\<dots> \<le> t ^ 5 * (41 / 5040)" using t5 by (intro mult_right_mono) simp_all
    also have "\<dots> = t ^ 5 / 120 - t ^ 5 / 5040" by simp
    also have "\<dots> \<le> t ^ 5 / 120 - t ^ 7 / 5040" using t7 by simp
    finally show ?thesis .
  qed
  ultimately show ?thesis by linarith
qed

lemma accurate_atE:
  assumes "accurate_at psin e d"
  obtains x y where "d = Finite x" "psin d = Finite y" "\<bar>y - sin x\<bar> \<le> e"
  using assms by (auto simp: accurate_at_def split: double.splits)

lemma abs_sin3_le: assumes "\<bar>x\<bar> \<le> 1" shows "\<bar>sin3 x\<bar> \<le> 3 / 2"
proof -
  have "\<bar>x ^ 3\<bar> \<le> 1" using assms by (simp add: power_abs power_le_one)
  then have "\<bar>x ^ 3 / 6\<bar> \<le> 1 / 6" by simp
  moreover have "\<bar>x - x ^ 3 / 6\<bar> \<le> \<bar>x\<bar> + \<bar>x ^ 3 / 6\<bar>" by (rule abs_triangle_ineq4)
  ultimately show ?thesis using assms unfolding sin3_def by linarith
qed

lemma lane11:
  assumes "\<bar>x\<bar> \<le> 4 / 5" "\<bar>y - sin x\<bar> \<le> 1 / 10 ^ 12"
  obtains A where "spec_sine_poly (Finite x) = Finite A" "\<bar>A\<bar> \<le> 2" "\<bar>y - A\<bar> \<le> 1 / 10 ^ 10"
proof -
  from sine_poly_approx[OF assms(1)] obtain A where A: "spec_sine_poly (Finite x) = Finite A"
    "\<bar>A - sin11 x\<bar> \<le> 243 / 2 ^ 53" by (rule approxE)
  have s: "\<bar>sin x\<bar> \<le> 1" by simp
  have 1: "\<bar>A - sin x\<bar> \<le> 243 / 2 ^ 53 + 1 / 10 ^ 11"
    by (rule abs_diff_chain[OF A(2)]) (use sin11_trunc[OF assms(1)] in \<open>simp add: abs_minus_commute\<close>)
  have "\<bar>y - A\<bar> \<le> 1 / 10 ^ 12 + (243 / 2 ^ 53 + 1 / 10 ^ 11)"
    by (rule abs_diff_chain[OF assms(2)]) (use 1 in \<open>simp add: abs_minus_commute\<close>)
  then have 2: "\<bar>y - A\<bar> \<le> 1 / 10 ^ 10" by simp
  have "\<bar>A - 0\<bar> \<le> 243 / 2 ^ 53 + 1 / 10 ^ 11 + 1"
    by (rule abs_diff_chain[OF 1]) (use s in simp)
  then have b: "\<bar>A\<bar> \<le> 2" by simp
  show ?thesis by (rule that[OF A(1) b 2])
qed

lemma lane3:
  assumes "\<bar>x\<bar> \<le> 4 / 5" "\<bar>y - sin x\<bar> \<le> 1 / 10 ^ 12"
  obtains A where "spec_sine_poly3 (Finite x) = Finite A" "\<bar>A\<bar> \<le> 2"
    "1 / 32 \<le> \<bar>x\<bar> \<Longrightarrow> 1 / 10 ^ 10 \<le> \<bar>y - A\<bar>"
proof -
  from sine_poly3_approx[OF assms(1)] obtain A where A: "spec_sine_poly3 (Finite x) = Finite A"
    "\<bar>A - sin3 x\<bar> \<le> 7 / 2 ^ 53" by (rule approxE)
  have x1: "\<bar>x\<bar> \<le> 1" using assms(1) by simp
  have "\<bar>A - 0\<bar> \<le> 7 / 2 ^ 53 + 3 / 2"
    by (rule abs_diff_chain[OF A(2)]) (use abs_sin3_le[OF x1] in simp)
  then have b: "\<bar>A\<bar> \<le> 2" by simp
  have g: "1 / 10 ^ 10 \<le> \<bar>y - A\<bar>" if "1 / 32 \<le> \<bar>x\<bar>"
  proof -
    have gap: "24 / 10 ^ 11 \<le> \<bar>sin x - sin3 x\<bar>" by (rule sin3_gap[OF that x1])
    have "\<bar>sin x - sin3 x\<bar> \<le> \<bar>y - A\<bar> + (1 / 10 ^ 12 + 7 / 2 ^ 53)"
      using assms(2) A(2) by linarith
    moreover have "(1 / 10 ^ 10 :: real) + (1 / 10 ^ 12 + 7 / 2 ^ 53) \<le> 24 / 10 ^ 11" by simp
    ultimately show ?thesis using gap by linarith
  qed
  show ?thesis by (rule that[OF A(1) b g])
qed

lemma sin4_intrin_simd:
  "hw \<noteq> NoSIMD \<Longrightarrow>
   sin4_intrin hw psin sinx x = (\<lambda>i. if i < 4 then spec_sine_poly3 (x i) else sinx i)"
  by (cases hw) (simp_all add: sin4_intrin_AVX sin4_intrin_SSE2)


lemma sine3_small_1:
  "fmul (Finite (1469720108946391 / 2 ^ 62))
     (Finite (1469720108946391 / 2 ^ 62))
   = Finite (3837067905439169 / 2 ^ 75)"
  by (simp only: c_eq fmul.simps)
    (rule round_double_cert[where n = "7674135810878338" and q = "-76"]; simp)

lemma sine3_small_2:
  "fmul (Finite (3837067905439169 / 2 ^ 75))
     (Finite (1469720108946391 / 2 ^ 62))
   = Finite (5008807466581505 / 2 ^ 87)"
  by (simp only: c_eq fmul.simps)
    (rule round_double_cert[where n = "5008807466581505" and q = "-87"]; simp)

lemma sine3_small_3:
  "fmul c3
     (Finite (5008807466581505 / 2 ^ 87))
   = Finite (- (3339204977721003 / 2 ^ 89))"
  by (simp only: c_eq fmul.simps)
    (rule round_double_cert[where n = "-6678409955442006" and q = "-90"]; simp)

lemma sine3_small_4:
  "fadd (Finite (1469720108946391 / 2 ^ 62))
     (Finite (- (3339204977721003 / 2 ^ 89)))
   = Finite (5878880336269501 / 2 ^ 64)"
  by (simp only: c_eq fadd.simps)
    (rule round_double_cert[where n = "5878880336269501" and q = "-64"]; simp)

lemma sine_poly3_small:
  "spec_sine_poly3 (Finite (1469720108946391 / 2 ^ 62)) = Finite (5878880336269501 / 2 ^ 64)"
  by (simp only: spec_sine_poly3_def Let_def
      sine3_small_1 sine3_small_2 sine3_small_3 sine3_small_4)

lemma sine_small_1:
  "fmul (Finite (1469720108946391 / 2 ^ 62))
     (Finite (1469720108946391 / 2 ^ 62))
   = Finite (3837067905439169 / 2 ^ 75)"
  by (simp only: c_eq fmul.simps)
    (rule round_double_cert[where n = "7674135810878338" and q = "-76"]; simp)

lemma sine_small_2:
  "fmul (Finite (3837067905439169 / 2 ^ 75))
     (Finite (1469720108946391 / 2 ^ 62))
   = Finite (5008807466581505 / 2 ^ 87)"
  by (simp only: c_eq fmul.simps)
    (rule round_double_cert[where n = "5008807466581505" and q = "-87"]; simp)

lemma sine_small_3:
  "fmul (Finite (3837067905439169 / 2 ^ 75))
     (Finite (5008807466581505 / 2 ^ 87))
   = Finite (8535010198393407 / 2 ^ 111)"
  by (simp only: c_eq fmul.simps)
    (rule round_double_cert[where n = "8535010198393407" and q = "-111"]; simp)

lemma sine_small_4:
  "fmul (Finite (3837067905439169 / 2 ^ 75))
     (Finite (8535010198393407 / 2 ^ 111))
   = Finite (7271830627620121 / 2 ^ 134)"
  by (simp only: c_eq fmul.simps)
    (rule round_double_cert[where n = "7271830627620121" and q = "-134"]; simp)

lemma sine_small_5:
  "fmul (Finite (3837067905439169 / 2 ^ 75))
     (Finite (7271830627620121 / 2 ^ 134))
   = Finite (6195601346410559 / 2 ^ 157)"
  by (simp only: c_eq fmul.simps)
    (rule round_double_cert[where n = "6195601346410559" and q = "-157"]; simp)

lemma sine_small_6:
  "fmul (Finite (3837067905439169 / 2 ^ 75))
     (Finite (6195601346410559 / 2 ^ 157))
   = Finite (5278653754372011 / 2 ^ 180)"
  by (simp only: c_eq fmul.simps)
    (rule round_double_cert[where n = "5278653754372011" and q = "-180"]; simp)

lemma sine_small_7:
  "fmul c3
     (Finite (5008807466581505 / 2 ^ 87))
   = Finite (- (3339204977721003 / 2 ^ 89))"
  by (simp only: c_eq fmul.simps)
    (rule round_double_cert[where n = "-6678409955442006" and q = "-90"]; simp)

lemma sine_small_8:
  "fadd (Finite (1469720108946391 / 2 ^ 62))
     (Finite (- (3339204977721003 / 2 ^ 89)))
   = Finite (5878880336269501 / 2 ^ 64)"
  by (simp only: c_eq fadd.simps)
    (rule round_double_cert[where n = "5878880336269501" and q = "-64"]; simp)

lemma sine_small_9:
  "fmul c5
     (Finite (8535010198393407 / 2 ^ 111))
   = Finite (2276002719571575 / 2 ^ 116)"
  by (simp only: c_eq fmul.simps)
    (rule round_double_cert[where n = "4552005439143150" and q = "-117"]; simp)

lemma sine_small_10:
  "fadd (Finite (5878880336269501 / 2 ^ 64))
     (Finite (2276002719571575 / 2 ^ 116))
   = Finite (2939440168134751 / 2 ^ 63)"
  by (simp only: c_eq fadd.simps)
    (rule round_double_cert[where n = "5878880336269502" and q = "-64"]; simp)

lemma sine_small_11:
  "fmul c7
     (Finite (7271830627620121 / 2 ^ 134))
   = Finite (- (5909805208478575 / 2 ^ 146))"
  by (simp only: c_eq fmul.simps)
    (rule round_double_cert[where n = "-5909805208478575" and q = "-146"]; simp)

lemma sine_small_12:
  "fadd (Finite (2939440168134751 / 2 ^ 63))
     (Finite (- (5909805208478575 / 2 ^ 146)))
   = Finite (2939440168134751 / 2 ^ 63)"
  by (simp only: c_eq fadd.simps)
    (rule round_double_cert[where n = "5878880336269502" and q = "-64"]; simp)

lemma sine_small_13:
  "fmul c9
     (Finite (6195601346410559 / 2 ^ 157))
   = Finite (4475693671057787 / 2 ^ 175)"
  by (simp only: c_eq fmul.simps)
    (rule round_double_cert[where n = "8951387342115574" and q = "-176"]; simp)

lemma sine_small_14:
  "fadd (Finite (2939440168134751 / 2 ^ 63))
     (Finite (4475693671057787 / 2 ^ 175))
   = Finite (2939440168134751 / 2 ^ 63)"
  by (simp only: c_eq fadd.simps)
    (rule round_double_cert[where n = "5878880336269502" and q = "-64"]; simp)

lemma sine_small_15:
  "fmul c11
     (Finite (5278653754372011 / 2 ^ 180))
   = Finite (- (2218642632333007 / 2 ^ 204))"
  by (simp only: c_eq fmul.simps)
    (rule round_double_cert[where n = "-8874570529332028" and q = "-206"]; simp)

lemma sine_small_16:
  "fadd (Finite (2939440168134751 / 2 ^ 63))
     (Finite (- (2218642632333007 / 2 ^ 204)))
   = Finite (2939440168134751 / 2 ^ 63)"
  by (simp only: c_eq fadd.simps)
    (rule round_double_cert[where n = "5878880336269502" and q = "-64"]; simp)

lemma sine_poly_small:
  "spec_sine_poly (Finite (1469720108946391 / 2 ^ 62)) = Finite (2939440168134751 / 2 ^ 63)"
  by (simp only: spec_sine_poly_def Let_def
      sine_small_1 sine_small_2 sine_small_3 sine_small_4 sine_small_5 sine_small_6
      sine_small_7 sine_small_8 sine_small_9 sine_small_10 sine_small_11 sine_small_12
      sine_small_13 sine_small_14 sine_small_15 sine_small_16)

lemma sine_pi4_1:
  "fmul (Finite (884279719003555 / 2 ^ 50))
     (Finite (884279719003555 / 2 ^ 50))
   = Finite (2778046668940015 / 2 ^ 52)"
  by (simp only: c_eq fmul.simps)
    (rule round_double_cert[where n = "5556093337880030" and q = "-53"]; simp)

lemma sine_pi4_2:
  "fmul (Finite (2778046668940015 / 2 ^ 52))
     (Finite (884279719003555 / 2 ^ 50))
   = Finite (8727491006471547 / 2 ^ 54)"
  by (simp only: c_eq fmul.simps)
    (rule round_double_cert[where n = "8727491006471547" and q = "-54"]; simp)

lemma sine_pi4_3:
  "fmul (Finite (2778046668940015 / 2 ^ 52))
     (Finite (8727491006471547 / 2 ^ 54))
   = Finite (5383555227996211 / 2 ^ 54)"
  by (simp only: c_eq fmul.simps)
    (rule round_double_cert[where n = "5383555227996211" and q = "-54"]; simp)

lemma sine_pi4_4:
  "fmul (Finite (2778046668940015 / 2 ^ 52))
     (Finite (5383555227996211 / 2 ^ 54))
   = Finite (3320847523233689 / 2 ^ 54)"
  by (simp only: c_eq fmul.simps)
    (rule round_double_cert[where n = "6641695046467378" and q = "-55"]; simp)

lemma sine_pi4_5:
  "fmul (Finite (2778046668940015 / 2 ^ 52))
     (Finite (3320847523233689 / 2 ^ 54))
   = Finite (4096931416331739 / 2 ^ 55)"
  by (simp only: c_eq fmul.simps)
    (rule round_double_cert[where n = "8193862832663478" and q = "-56"]; simp)

lemma sine_pi4_6:
  "fmul (Finite (2778046668940015 / 2 ^ 52))
     (Finite (4096931416331739 / 2 ^ 55))
   = Finite (157949579443707 / 2 ^ 51)"
  by (simp only: c_eq fmul.simps)
    (rule round_double_cert[where n = "5054386542198624" and q = "-56"]; simp)

lemma sine_pi4_7:
  "fmul c3
     (Finite (8727491006471547 / 2 ^ 54))
   = Finite (- (2909163668823849 / 2 ^ 55))"
  by (simp only: c_eq fmul.simps)
    (rule round_double_cert[where n = "-5818327337647698" and q = "-56"]; simp)

lemma sine_pi4_8:
  "fadd (Finite (884279719003555 / 2 ^ 50))
     (Finite (- (2909163668823849 / 2 ^ 55)))
   = Finite (3173473417411239 / 2 ^ 52)"
  by (simp only: c_eq fadd.simps)
    (rule round_double_cert[where n = "6346946834822478" and q = "-53"]; simp)

lemma sine_pi4_9:
  "fmul c5
     (Finite (5383555227996211 / 2 ^ 54))
   = Finite (5742458909862625 / 2 ^ 61)"
  by (simp only: c_eq fmul.simps)
    (rule round_double_cert[where n = "5742458909862625" and q = "-61"]; simp)

lemma sine_pi4_10:
  "fadd (Finite (3173473417411239 / 2 ^ 52))
     (Finite (5742458909862625 / 2 ^ 61))
   = Finite (6369378314939129 / 2 ^ 53)"
  by (simp only: c_eq fadd.simps)
    (rule round_double_cert[where n = "6369378314939129" and q = "-53"]; simp)

lemma sine_pi4_11:
  "fmul c7
     (Finite (3320847523233689 / 2 ^ 54))
   = Finite (- (1349423755472737 / 2 ^ 65))"
  by (simp only: c_eq fmul.simps)
    (rule round_double_cert[where n = "-5397695021890948" and q = "-67"]; simp)

lemma sine_pi4_12:
  "fadd (Finite (6369378314939129 / 2 ^ 53))
     (Finite (- (1349423755472737 / 2 ^ 65)))
   = Finite (3184524432890039 / 2 ^ 52)"
  by (simp only: c_eq fadd.simps)
    (rule round_double_cert[where n = "6369048865780078" and q = "-53"]; simp)

lemma sine_pi4_13:
  "fmul c9
     (Finite (4096931416331739 / 2 ^ 55))
   = Finite (5919234949310337 / 2 ^ 74)"
  by (simp only: c_eq fmul.simps)
    (rule round_double_cert[where n = "5919234949310337" and q = "-74"]; simp)

lemma sine_pi4_14:
  "fadd (Finite (3184524432890039 / 2 ^ 52))
     (Finite (5919234949310337 / 2 ^ 74))
   = Finite (3184525844145625 / 2 ^ 52)"
  by (simp only: c_eq fadd.simps)
    (rule round_double_cert[where n = "6369051688291250" and q = "-53"]; simp)

lemma sine_pi4_15:
  "fmul c11
     (Finite (157949579443707 / 2 ^ 51))
   = Finite (- (4248764167766927 / 2 ^ 81))"
  by (simp only: c_eq fmul.simps)
    (rule round_double_cert[where n = "-8497528335533854" and q = "-82"]; simp)

lemma sine_pi4_16:
  "fadd (Finite (3184525844145625 / 2 ^ 52))
     (Finite (- (4248764167766927 / 2 ^ 81)))
   = Finite (3184525836231685 / 2 ^ 52)"
  by (simp only: c_eq fadd.simps)
    (rule round_double_cert[where n = "6369051672463370" and q = "-53"]; simp)

lemma sine_poly_P4:
  "spec_sine_poly (Finite (884279719003555 / 2 ^ 50)) = Finite (3184525836231685 / 2 ^ 52)"
  by (simp only: spec_sine_poly_def Let_def
      sine_pi4_1 sine_pi4_2 sine_pi4_3 sine_pi4_4 sine_pi4_5 sine_pi4_6 sine_pi4_7
      sine_pi4_8 sine_pi4_9 sine_pi4_10 sine_pi4_11 sine_pi4_12 sine_pi4_13
      sine_pi4_14 sine_pi4_15 sine_pi4_16)

lemma sqrt2_tight: "14142135623730 / 10 ^ 13 \<le> sqrt 2" "sqrt 2 \<le> 14142135623731 / 10 ^ 13"
proof -
  show "14142135623730 / 10 ^ 13 \<le> sqrt 2"
    by (rule real_le_rsqrt) (simp add: power2_eq_square)
  show "sqrt 2 \<le> 14142135623731 / 10 ^ 13"
    by (rule real_le_lsqrt) (simp_all add: power2_eq_square)
qed

lemma sin_P4r: "\<bar>sin P4r - sqrt 2 / 2\<bar> \<le> 1 / 10 ^ 16"
proof -
  have "P4r - pi / 4 = 1 / 2 * (P2r - pi / 2)" by simp
  then have "\<bar>P4r - pi / 4\<bar> = \<bar>1 / 2 * (P2r - pi / 2)\<bar>" by (rule arg_cong)
  also have "\<dots> = 1 / 2 * \<bar>P2r - pi / 2\<bar>" by (rule abs_scale) simp
  also have "\<dots> \<le> 1 / 2 * (1 / 10 ^ 16)" using pi_half_close by (intro mult_left_mono) simp_all
  finally have "\<bar>P4r - pi / 4\<bar> \<le> 1 / 10 ^ 16" by simp
  then have "\<bar>sin P4r - sin (pi / 4)\<bar> \<le> 1 / 10 ^ 16"
    using sin_lipschitz[of P4r "pi / 4"] by linarith
  then show ?thesis by (simp only: sin_45)
qed

lemma ref_P4r: "\<bar>1592262918131443 / 2 ^ 51 - sin P4r\<bar> \<le> 1 / 10 ^ 12"
proof -
  have "\<bar>1592262918131443 / 2 ^ 51 - sqrt 2 / 2\<bar> \<le> 1 / 10 ^ 13"
    using sqrt2_tight by (simp add: abs_if)
  moreover have "\<bar>sqrt 2 / 2 - sin P4r\<bar> \<le> 1 / 10 ^ 16"
    using sin_P4r by (simp only: abs_minus_commute)
  ultimately have "\<bar>1592262918131443 / 2 ^ 51 - sin P4r\<bar> \<le> 1 / 10 ^ 13 + 1 / 10 ^ 16"
    by (rule abs_diff_chain)
  then show ?thesis by simp
qed

lemma sin_small: "\<bar>5878880336269501 / 2 ^ 64 - sin (1469720108946391 / 2 ^ 62 :: real)\<bar> \<le> 1 / 2 ^ 66"
proof -
  let ?x = "1469720108946391 / 2 ^ 62 :: real"
  have "\<bar>sin ?x - (sin3 ?x + ?x ^ 5 / 120)\<bar> \<le> inverse (fact 7) * \<bar>?x\<bar> ^ 7"
    using Maclaurin_sin_bound[of ?x 7] by (simp only: Maclaurin_sin_7)
  moreover have "\<bar>5878880336269501 / 2 ^ 64 - (sin3 ?x + ?x ^ 5 / 120)\<bar>
      + inverse (fact 7) * \<bar>?x\<bar> ^ 7 \<le> 1 / 2 ^ 66"
    by (simp add: sin3_def fact_numeral power_divide)
  ultimately show ?thesis by linarith
qed

lemma err_4_const:
  assumes "fabs (fsub a b) = Finite r" "0 \<le> r"
  shows "err (\<lambda>i. if i < 4 then a else u i) (\<lambda>i. if i < 4 then b else v i) 4 = Finite r"
proof -
  have "err (\<lambda>i. if i < 4 then a else u i) (\<lambda>i. if i < 4 then b else v i) 4
      = Finite (max (max (max (max 0 r) r) r) r)"
    by (rule err_4) (simp add: assms(1))
  then show ?thesis using assms(2) by simp
qed

lemma diff_self: "fabs (fsub (Finite a) (Finite a)) = Finite 0"
  using max_double_pos by (simp add: fsub_def round_double_def)

lemma diff_small:
  "fabs (fsub (Finite (5878880336269501 / 2 ^ 64)) (Finite (2939440168134751 / 2 ^ 63)))
     = Finite (1 / 2 ^ 64)"
proof -
  have "representable (- (1 / 2 ^ 64))"
    by (rule representableI[of _ "- 1" "- 64"]) (simp_all add: power_int_minus_divide)
  then have "round_double (5878880336269501 / 2 ^ 64 - 2939440168134751 / 2 ^ 63) = Finite (- (1 / 2 ^ 64))"
    by (simp add: round_double_representable)
  then show ?thesis by (simp add: fsub_def)
qed

lemma diff_P4:
  "fabs (fsub (Finite (1592262918131443 / 2 ^ 51)) (Finite (3184525836231685 / 2 ^ 52)))
     = Finite (31201 / 2 ^ 52)"
proof -
  have "representable (31201 / 2 ^ 52)"
    by (rule representableI[of _ 31201 "- 52"]) (simp_all add: power_int_minus_divide)
  then have "round_double (1592262918131443 / 2 ^ 51 - 3184525836231685 / 2 ^ 52) = Finite (31201 / 2 ^ 52)"
    by (simp add: round_double_representable)
  then show ?thesis by (simp add: fsub_def)
qed

section \<open>The claims\<close>

text \<open>
  C4, as the specification states it: for every batch \<open>x\<close>, \<^verbatim>\<open>cos4_vector\<close> stores in each
  output lane the degree-10 cosine polynomial \<open>1 + c2 x\<^sup>2 + ... + c10 x\<^sup>1\<^sup>0\<close> of that lane's
  input. The code does not: the accumulator starts at the vector of ones and the sum
  added to it starts with the vector of ones again, so every lane holds one more than
  the polynomial. On the batch of zeros the polynomial is 1 and each of the four lanes
  receives 2; the rest of the output memory is untouched.
\<close>

theorem cos4_vector_at_zero:
  "cos4_vector cosx (\<lambda>i. Finite 0) = (\<lambda>i. if i < 4 then Finite 2 else cosx i) \<and>
   spec_cosine_poly (Finite 0) = Finite 1"
proof -
  have "spec_cosine_poly (Finite 0) = Finite 1"
    by (simp add: spec_cosine_poly_def c_eq fp_eval)
  moreover have "fadd (Finite 1) (Finite 1) = Finite 2" by (simp add: fp_eval)
  ultimately show ?thesis by (auto simp: cos4_vector_lanes fun_eq_iff)
qed

text \<open>
  C5: when the angle already lies in the closed interval \<^verbatim>\<open>[-M_PI/4, M_PI/4]\<close>, the
  boundaries included, or is a finite double in \<open>[-\<pi>/4, \<pi>/4]\<close> (which for finite doubles
  is the same), the loop condition of \<^verbatim>\<open>angle_transform\<close> is false at once, so the loop
  body never runs: the angle is returned unchanged, with the sign flag and the function
  selector both true, whatever the flags held before the call.
\<close>

theorem angle_transform_in_range:
  assumes "in_range (angle s) \<or> is_finite (angle s) \<and> \<bar>fval (angle s)\<bar> \<le> pi / 4"
  shows "\<not> angle_cond (s\<lparr>sin_cos := True, sign := True\<rparr>) \<and>
         angle_transform s = Some \<lparr>angle = angle s, sign = True, sin_cos = True\<rparr>"
proof -
  let ?s = "s\<lparr>sin_cos := True, sign := True\<rparr>"
  have "in_range (angle s)" using assms in_range_finite_iff by blast
  then have c: "\<not> angle_cond ?s" by (intro in_range_no_loop) simp
  then have "angle_while ?s = Some ?s" by (subst angle_while.simps) simp
  then show ?thesis using c by (simp add: angle_transform_def)
qed

theorem angle_transform_in_range_witness:
  "in_range (fdiv M_PI (Finite 4)) \<and> in_range (fdiv (fneg M_PI) (Finite 4)) \<and>
   angle_transform \<lparr>angle = fdiv M_PI (Finite 4), sign = False, sin_cos = False\<rparr>
     = Some \<lparr>angle = fdiv M_PI (Finite 4), sign = True, sin_cos = True\<rparr> \<and>
   angle_transform \<lparr>angle = fdiv (fneg M_PI) (Finite 4), sign = False, sin_cos = False\<rparr>
     = Some \<lparr>angle = fdiv (fneg M_PI) (Finite 4), sign = True, sin_cos = True\<rparr>"
proof -
  have 1: "in_range (fdiv M_PI (Finite 4))" by (simp add: in_range_def M_PI_4_eq neg_M_PI_4_eq)
  have 2: "in_range (fdiv (fneg M_PI) (Finite 4))" by (simp add: in_range_def M_PI_4_eq neg_M_PI_4_eq)
  show ?thesis
    using 1 2
      angle_transform_in_range[of "\<lparr>angle = fdiv M_PI (Finite 4), sign = False, sin_cos = False\<rparr>"]
      angle_transform_in_range[of "\<lparr>angle = fdiv (fneg M_PI) (Finite 4), sign = False, sin_cos = False\<rparr>"]
    by simp
qed

text \<open>
  C6, as the specification states it: from \<open>3\<pi>/4\<close> the reduction leaves the angle
  \<open>-\<pi>/4\<close>. It does not: \<^verbatim>\<open>3*M_PI/4 - M_PI/2\<close> is \<^verbatim>\<open>M_PI/4\<close>, which is not \<^verbatim>\<open>-M_PI/4\<close>.
\<close>

theorem scenario_3pi4_not_negative:
  "map_option angle (angle_transform
      \<lparr>angle = fdiv (fmul (Finite 3) M_PI) (Finite 4), sign = True, sin_cos = True\<rparr>)
     \<noteq> Some (fdiv (fneg M_PI) (Finite 4))"
  by (simp add: transform_3pi4) (simp add: M_PI_4_eq neg_M_PI_4_eq)

text \<open>
  C6, amended: on the input \<^verbatim>\<open>3*M_PI/4\<close> the loop of \<^verbatim>\<open>angle_transform\<close> runs exactly once,
  through the subtracting branch, and leaves the angle \<^verbatim>\<open>M_PI/4\<close> (positive), the selector
  on cosine and the sign flag true. \<^verbatim>\<open>sin4_taylor\<close>, given these flags, stores the value
  \<open>3184525835746671 / 2^52\<close>, which is within \<open>10^-9\<close> of \<open>sin (3\<pi>/4)\<close>.
\<close>

theorem scenario_3pi4:
  "angle_cond \<lparr>angle = fdiv (fmul (Finite 3) M_PI) (Finite 4), sign = True, sin_cos = True\<rparr> \<and>
   \<not> flt (fdiv (fmul (Finite 3) M_PI) (Finite 4)) (fdiv (fneg M_PI) (Finite 4)) \<and>
   \<not> angle_cond (angle_body
      \<lparr>angle = fdiv (fmul (Finite 3) M_PI) (Finite 4), sign = True, sin_cos = True\<rparr>) \<and>
   angle_transform \<lparr>angle = fdiv (fmul (Finite 3) M_PI) (Finite 4), sign = sg, sin_cos = sc\<rparr>
     = Some \<lparr>angle = fdiv M_PI (Finite 4), sign = True, sin_cos = False\<rparr> \<and>
   sin4_taylor sinx (\<lambda>i. fdiv M_PI (Finite 4)) (Some (\<lambda>i. True)) (Some (\<lambda>i. False))
     = Inr (\<lambda>i. if i < 4 then Finite (3184525835746671 / 2 ^ 52) else sinx i) \<and>
   \<bar>3184525835746671 / 2 ^ 52 - sin (3 * pi / 4)\<bar> \<le> 1 / 10 ^ 9"
proof (intro conjI)
  show "angle_cond \<lparr>angle = fdiv (fmul (Finite 3) M_PI) (Finite 4), sign = True, sin_cos = True\<rparr>"
    unfolding three_pi_4_eq by (rule cond_3pi4)
  show "\<not> flt (fdiv (fmul (Finite 3) M_PI) (Finite 4)) (fdiv (fneg M_PI) (Finite 4))"
    by (simp add: three_pi_4_eq neg_M_PI_4_eq)
  show "\<not> angle_cond (angle_body
      \<lparr>angle = fdiv (fmul (Finite 3) M_PI) (Finite 4), sign = True, sin_cos = True\<rparr>)"
    unfolding three_pi_4_eq step_3pi4 by (rule cond_pi4)
  show "angle_transform \<lparr>angle = fdiv (fmul (Finite 3) M_PI) (Finite 4), sign = sg, sin_cos = sc\<rparr>
     = Some \<lparr>angle = fdiv M_PI (Finite 4), sign = True, sin_cos = False\<rparr>"
    by (rule transform_3pi4)
  show "sin4_taylor sinx (\<lambda>i. fdiv M_PI (Finite 4)) (Some (\<lambda>i. True)) (Some (\<lambda>i. False))
     = Inr (\<lambda>i. if i < 4 then Finite (3184525835746671 / 2 ^ 52) else sinx i)"
    by (simp only: sin4_taylor_cosine M_PI_4_eq cos_pi4_val)
  show "\<bar>3184525835746671 / 2 ^ 52 - sin (3 * pi / 4)\<bar> \<le> 1 / 10 ^ 9"
    unfolding sin_3pi4 using sqrt2_bounds by simp
qed

text \<open>
  C7: with \<^verbatim>\<open>__AVX__\<close> defined, and with only \<^verbatim>\<open>__SSE2__\<close> defined, \<^verbatim>\<open>sin4_intrin\<close> stores in
  each of the four output lanes the degree-3 truncation \<open>x + c3 x\<^sup>3\<close> of that lane's input
  and leaves the rest of the output alone; with neither defined it does what
  \<^verbatim>\<open>sin4_reference\<close> does, which stores the library sine of each lane.
\<close>

theorem sin4_intrin_lanes:
  "sin4_intrin AVX psin sinx x = (\<lambda>i. if i < 4 then spec_sine_poly3 (x i) else sinx i) \<and>
   sin4_intrin SSE2 psin sinx x = (\<lambda>i. if i < 4 then spec_sine_poly3 (x i) else sinx i) \<and>
   sin4_intrin NoSIMD psin sinx x = sin4_reference psin sinx x \<and>
   sin4_reference psin sinx x = (\<lambda>i. if i < 4 then psin (x i) else sinx i)"
proof (intro conjI)
  show "sin4_intrin NoSIMD psin sinx x = sin4_reference psin sinx x"
    by (simp add: sin4_intrin_def)
qed (rule sin4_intrin_AVX sin4_intrin_SSE2 sin4_reference_lanes)+

text \<open>
  C8: on every batch \<^verbatim>\<open>sin4_vector\<close> and \<^verbatim>\<open>sin4_taylor\<close> called without flag arrays store
  the same doubles, not only nearby ones: in each of the four lanes the degree-11 sine
  polynomial of that lane's input. The two functions multiply the powers in a different
  order, and a rounded product does not depend on the order of its factors.
\<close>

theorem sin4_vector_taylor:
  "sin4_taylor sinx x None None = Inr (sin4_vector sinx x) \<and>
   sin4_vector sinx x = (\<lambda>i. if i < 4 then spec_sine_poly (x i) else sinx i)"
  by (simp add: sin4_taylor_nullptr sin4_vector_lanes)

text \<open>
  C10: when \<^verbatim>\<open>sin_cos_vec\<close> is \<^verbatim>\<open>nullptr\<close>, \<^verbatim>\<open>sin4_taylor\<close> stores the degree-11 sine polynomial
  of each lane, not negated, whatever \<^verbatim>\<open>sign_vec\<close> is (also \<^verbatim>\<open>nullptr\<close>): neither the cosine
  branch nor the factor \<open>-1\<close> is reached, and \<^verbatim>\<open>sign_vec\<close> is never read.
\<close>

theorem sin4_taylor_no_flags:
  "sin4_taylor sinx x sign_vec None = Inr (\<lambda>i. if i < 4 then spec_sine_poly (x i) else sinx i)"
  by (rule sin4_taylor_nullptr)


text \<open>
  C2: when the angle is a finite double and \<^verbatim>\<open>angle_transform\<close> returns, the angle it leaves
  is a finite double in the closed interval \<^verbatim>\<open>[-M_PI/4, M_PI/4]\<close>, hence in
  \<open>[-\<pi>/4, \<pi>/4]\<close>, as \<^verbatim>\<open>M_PI\<close> lies below \<open>\<pi>\<close>: no iteration overflows or produces NaN, so
  the negated loop condition says what it seems to say.
\<close>

theorem angle_transform_range:
  assumes "is_finite (angle s)" "angle_transform s = Some r"
  shows "is_finite (angle r) \<and> in_range (angle r) \<and> \<bar>fval (angle r)\<bar> \<le> pi / 4"
proof -
  from angle_while_range[of "s\<lparr>sin_cos := True, sign := True\<rparr>" r] assms
  have f: "is_finite (angle r)" and i: "in_range (angle r)"
    by (simp_all add: angle_transform_def)
  from f obtain z where z: "angle r = Finite z" by (rule is_finiteE)
  from i have "\<bar>z\<bar> \<le> P4r" unfolding z in_range_Finite by (simp add: abs_if)
  moreover have "P4r \<le> pi / 4" using pi_half_lower by simp
  ultimately have "\<bar>z\<bar> \<le> pi / 4" by (rule order_trans)
  then show ?thesis using f i by (simp add: z)
qed

theorem angle_transform_range_witness:
  "is_finite (fdiv (fmul (Finite 3) M_PI) (Finite 4)) \<and>
   angle_transform \<lparr>angle = fdiv (fmul (Finite 3) M_PI) (Finite 4), sign = True, sin_cos = True\<rparr>
     = Some \<lparr>angle = fdiv M_PI (Finite 4), sign = True, sin_cos = False\<rparr> \<and>
   is_finite (fdiv M_PI (Finite 4)) \<and> in_range (fdiv M_PI (Finite 4)) \<and>
   \<bar>fval (fdiv M_PI (Finite 4))\<bar> \<le> pi / 4"
proof -
  have "representable (2652839157010665 / 2 ^ 50)"
    by (rule representableI[of _ 2652839157010665 "- 50"]) (simp_all add: power_int_minus_divide)
  then have f: "is_finite (fdiv (fmul (Finite 3) M_PI) (Finite 4))" by (simp add: three_pi_4_eq)
  show ?thesis
    using f transform_3pi4[of True True]
      angle_transform_range[of
        "\<lparr>angle = fdiv (fmul (Finite 3) M_PI) (Finite 4), sign = True, sin_cos = True\<rparr>"
        "\<lparr>angle = fdiv M_PI (Finite 4), sign = True, sin_cos = False\<rparr>"]
    by simp
qed

text \<open>
  C3, as the specification states it: the loop terminates for every finite double,
  however large. It does not: \<open>2^60\<close> is a finite double, the doubles around it are 128
  and 256 apart, so \<^verbatim>\<open>2^60 - M_PI/2\<close> rounds back to \<open>2^60\<close> and the loop never makes
  progress.
\<close>

theorem angle_transform_diverges:
  "is_finite (Finite (2 ^ 60)) \<and>
   angle_transform \<lparr>angle = Finite (2 ^ 60), sign = True, sin_cos = True\<rparr> = None"
proof -
  have r: "representable (2 ^ 60)"
    by (rule representableI[of _ 1 60]) simp_all
  have "angle_while \<lparr>angle = Finite (2 ^ 60), sign = True, sin_cos = True\<rparr> = None"
  proof (rule ccontr)
    assume "angle_while \<lparr>angle = Finite (2 ^ 60), sign = True, sin_cos = True\<rparr> \<noteq> None"
    then obtain t where "angle_while \<lparr>angle = Finite (2 ^ 60), sign = True, sin_cos = True\<rparr> = Some t"
      by blast
    from angle_while_stuck[OF this] r show False by simp
  qed
  then show ?thesis using r by (simp add: angle_transform_def)
qed

text \<open>
  C3, amended: for a finite double angle the loop of \<^verbatim>\<open>angle_transform\<close> terminates exactly
  when the magnitude of the angle is at most \<open>2^54\<close>. Up to there every iteration brings
  the angle at least \<open>1/2\<close> closer to zero; beyond, the doubles are at least 4 apart and
  adding or subtracting \<^verbatim>\<open>M_PI/2\<close> rounds back to the angle itself.
\<close>

theorem angle_transform_terminates_iff:
  assumes "is_finite (angle s)"
  shows "angle_transform s \<noteq> None \<longleftrightarrow> fle (fabs (angle s)) (Finite (2 ^ 54))"
proof -
  from assms obtain x where x: "angle s = Finite x" "representable x" by (rule is_finiteE)
  have "angle_while (s\<lparr>sin_cos := True, sign := True\<rparr>) \<noteq> None \<longleftrightarrow> \<bar>x\<bar> \<le> 2 ^ 54"
    by (rule angle_while_terminates_iff) (simp_all add: x)
  then show ?thesis by (simp add: angle_transform_def x)
qed

theorem angle_transform_terminates_iff_witness:
  "is_finite (Finite (2 ^ 54)) \<and>
   angle_transform \<lparr>angle = Finite (2 ^ 54), sign = True, sin_cos = True\<rparr> \<noteq> None"
proof -
  have "representable (2 ^ 54)"
    by (rule representableI[of _ 1 54]) simp_all
  then show ?thesis
    using angle_transform_terminates_iff[of "\<lparr>angle = Finite (2 ^ 54), sign = True, sin_cos = True\<rparr>"]
    by simp
qed

text \<open>
  C1, as the specification states it: for every finite angle the reduction followed by
  the polynomial gives the sine within \<open>10^-9\<close>. It does not: on the finite double \<open>2^100\<close>
  \<^verbatim>\<open>angle_transform\<close> never returns, so there is no reduced angle to evaluate.
\<close>

theorem reconstruct_diverges:
  "is_finite (Finite (2 ^ 100)) \<and>
   angle_transform \<lparr>angle = Finite (2 ^ 100), sign = True, sin_cos = True\<rparr> = None"
proof -
  have r: "representable (2 ^ 100)"
    by (rule representableI[of _ 1 100]) simp_all
  have big: "(2::real) ^ 54 < \<bar>2 ^ 100\<bar>" by simp
  have "angle_while \<lparr>angle = Finite (2 ^ 100), sign = True, sin_cos = True\<rparr> = None"
  proof (rule ccontr)
    assume "angle_while \<lparr>angle = Finite (2 ^ 100), sign = True, sin_cos = True\<rparr> \<noteq> None"
    then obtain t where "angle_while \<lparr>angle = Finite (2 ^ 100), sign = True, sin_cos = True\<rparr> = Some t"
      by blast
    from angle_while_stuck[OF this] r big show False by simp
  qed
  then show ?thesis using r by (simp add: angle_transform_def)
qed

text \<open>
  C1, amended: for every finite double angle \<open>x\<close> of magnitude at most 1024,
  \<^verbatim>\<open>angle_transform\<close> returns, and \<^verbatim>\<open>sin4_taylor\<close> called on the reduced angle with the sign flag
  and the selector it computed stores a finite value within \<open>3 * 10^-10\<close> of the sine of
  \<open>x\<close>, hence within \<open>10^-9\<close> of every reference value that is itself within
  \<open>7 * 10^-10\<close> of that sine, as the library's \<^verbatim>\<open>sin\<close> is. The error has three parts: at
  most \<open>2048\<close> iterations, each off by the rounding of the subtraction and by the distance
  of \<^verbatim>\<open>M_PI/2\<close> from \<open>\<pi>/2\<close>; the truncation of the series; the rounding of the polynomial
  evaluation.
\<close>

theorem reconstructed_sine:
  assumes "representable x" "\<bar>x\<bar> \<le> 1024" "psin (Finite x) = Finite y" "\<bar>y - sin x\<bar> \<le> 7 / 10 ^ 10"
  shows "\<exists>r v. angle_transform \<lparr>angle = Finite x, sign = sg, sin_cos = sc\<rparr> = Some r \<and>
     sin4_taylor sinx (\<lambda>i. angle r) (Some (\<lambda>i. sign r)) (Some (\<lambda>i. sin_cos r))
       = Inr (\<lambda>i. if i < 4 then Finite v else sinx i) \<and>
     \<bar>v - sin x\<bar> \<le> 3 / 10 ^ 10 \<and> \<bar>v - y\<bar> \<le> 1 / 10 ^ 9"
proof -
  let ?s = "\<lparr>angle = Finite x, sign = True, sin_cos = True\<rparr>"
  have "\<bar>x\<bar> \<le> real 2048 / 2" using assms(2) by simp
  from angle_while_val[OF _ assms(1,2) this, of ?s]
  obtain r z where r: "angle_while ?s = Some r" "angle r = Finite z" "\<bar>z\<bar> \<le> P4r"
    and d: "\<bar>state_val r - state_val ?s\<bar> \<le> real 2048 * (1 / 2 ^ 44 + 1 / 10 ^ 16)"
    by auto
  have s0: "state_val ?s = sin x" by (simp add: state_val_def rval_def)
  have sr: "state_val r = rval z (sign r) (sin_cos r)" by (simp add: state_val_def r(2))
  have "\<bar>z\<bar> \<le> 4 / 5" using r(3) by simp
  from lane_value[OF this, of "sin_cos r" "sign r"] obtain v where
    v: "(if sin_cos r then fmul (spec_sine_poly (Finite z)) (if sign r then Finite 1 else Finite (- 1))
        else fmul (spec_cosine_poly (Finite z)) (if sign r then Finite 1 else Finite (- 1))) = Finite v"
    and e: "\<bar>v - rval z (sign r) (sin_cos r)\<bar> \<le> 15 / 10 ^ 11 + 243 / 2 ^ 53" by blast
  have d': "\<bar>rval z (sign r) (sin_cos r) - sin x\<bar> \<le> 2048 * (1 / 2 ^ 44 + 1 / 10 ^ 16)"
    using d unfolding s0 sr by simp
  have "\<bar>v - sin x\<bar> \<le> 15 / 10 ^ 11 + 243 / 2 ^ 53 + 2048 * (1 / 2 ^ 44 + 1 / 10 ^ 16)"
    by (rule abs_diff_chain[OF e d'])
  also have "\<dots> \<le> 3 / 10 ^ 10" by simp
  finally have acc: "\<bar>v - sin x\<bar> \<le> 3 / 10 ^ 10" .
  have "\<bar>v - y\<bar> \<le> 3 / 10 ^ 10 + 7 / 10 ^ 10"
    by (rule abs_diff_chain[OF acc]) (use assms(4) in \<open>simp add: abs_minus_commute\<close>)
  then have ref: "\<bar>v - y\<bar> \<le> 1 / 10 ^ 9" by simp
  have t: "angle_transform \<lparr>angle = Finite x, sign = sg, sin_cos = sc\<rparr> = Some r"
    by (simp add: angle_transform_def r(1))
  have l: "sin4_taylor sinx (\<lambda>i. angle r) (Some (\<lambda>i. sign r)) (Some (\<lambda>i. sin_cos r))
       = Inr (\<lambda>i. if i < 4 then Finite v else sinx i)"
    unfolding sin4_taylor_const_flags r(2) v ..
  from t l acc ref show ?thesis by blast
qed

theorem reconstructed_sine_witness:
  "representable (2652839157010665 / 2 ^ 50) \<and> \<bar>2652839157010665 / 2 ^ 50\<bar> \<le> (1024::real) \<and>
   \<bar>6369051672525773 / 2 ^ 53 - sin (2652839157010665 / 2 ^ 50 :: real)\<bar> \<le> 7 / 10 ^ 10 \<and>
   (\<exists>r v. angle_transform \<lparr>angle = Finite (2652839157010665 / 2 ^ 50), sign = True, sin_cos = True\<rparr>
       = Some r \<and>
     sin4_taylor (\<lambda>i. Finite 0) (\<lambda>i. angle r) (Some (\<lambda>i. sign r)) (Some (\<lambda>i. sin_cos r))
       = Inr (\<lambda>i. if i < 4 then Finite v else Finite 0) \<and>
     \<bar>v - sin (2652839157010665 / 2 ^ 50 :: real)\<bar> \<le> 3 / 10 ^ 10 \<and>
     \<bar>v - 6369051672525773 / 2 ^ 53\<bar> \<le> 1 / 10 ^ 9)"
proof -
  have r: "representable (2652839157010665 / 2 ^ 50)"
    by (rule representableI[of _ 2652839157010665 "- 50"]) (simp_all add: power_int_minus_divide)
  have b: "\<bar>2652839157010665 / 2 ^ 50\<bar> \<le> (1024::real)" by simp
  have "\<bar>6369051672525773 / 2 ^ 53 - sqrt 2 / 2\<bar> \<le> 1 / 10 ^ 10"
    using sqrt2_bounds by (simp add: abs_if)
  moreover have "\<bar>sqrt 2 / 2 - sin (2652839157010665 / 2 ^ 50 :: real)\<bar> \<le> 2 / 10 ^ 16"
    using sin_3P4r by (simp only: abs_minus_commute)
  ultimately have "\<bar>6369051672525773 / 2 ^ 53 - sin (2652839157010665 / 2 ^ 50 :: real)\<bar>
      \<le> 1 / 10 ^ 10 + 2 / 10 ^ 16" by (rule abs_diff_chain)
  then have y: "\<bar>6369051672525773 / 2 ^ 53 - sin (2652839157010665 / 2 ^ 50 :: real)\<bar> \<le> 7 / 10 ^ 10"
    by simp
  show ?thesis
    using r b y
      reconstructed_sine[where x = "2652839157010665 / 2 ^ 50"
        and psin = "\<lambda>d. Finite (6369051672525773 / 2 ^ 53)" and y = "6369051672525773 / 2 ^ 53"
        and sg = True and sc = True and sinx = "\<lambda>i. Finite 0", OF r b refl y]
    by blast
qed

text \<open>
  C9, as the specification states it: on every batch of reduced inputs the maximum error
  of \<^verbatim>\<open>sin4_intrin\<close> against the reference is at least that of the degree-11 strategies.
  It is not, in two ways. With AVX, on the batch whose lanes all hold the double
  \<open>1469720108946391 / 2^62\<close> (about \<open>3.19 * 10^-4\<close>), the degree-3 value is the double nearest
  to the sine, so against a reference that returns this double \<^verbatim>\<open>err\<close> gives 0 for
  \<^verbatim>\<open>sin4_intrin\<close> and \<open>2^-64\<close>, one unit in the last place, for \<^verbatim>\<open>sin4_taylor\<close> and
  \<^verbatim>\<open>sin4_vector\<close>. Without AVX and SSE2, \<^verbatim>\<open>sin4_intrin\<close> is the reference itself and its error
  is 0 on every batch, while on the batch of \<^verbatim>\<open>M_PI/4\<close> the degree-11 value is
  \<open>31201 / 2^52\<close> away from the double nearest to the sine.
\<close>

theorem intrinsic_error_smaller:
  "in_range (Finite (1469720108946391 / 2 ^ 62)) \<and>
   \<bar>5878880336269501 / 2 ^ 64 - sin (1469720108946391 / 2 ^ 62 :: real)\<bar> \<le> 1 / 2 ^ 66 \<and>
   sin4_taylor (\<lambda>i. Finite 0) (\<lambda>i. Finite (1469720108946391 / 2 ^ 62)) None None
     = Inr (sin4_vector (\<lambda>i. Finite 0) (\<lambda>i. Finite (1469720108946391 / 2 ^ 62))) \<and>
   err (sin4_reference (\<lambda>d. Finite (5878880336269501 / 2 ^ 64)) (\<lambda>i. Finite 0)
          (\<lambda>i. Finite (1469720108946391 / 2 ^ 62)))
       (sin4_intrin AVX (\<lambda>d. Finite (5878880336269501 / 2 ^ 64)) (\<lambda>i. Finite 0)
          (\<lambda>i. Finite (1469720108946391 / 2 ^ 62))) 4 = Finite 0 \<and>
   err (sin4_reference (\<lambda>d. Finite (5878880336269501 / 2 ^ 64)) (\<lambda>i. Finite 0)
          (\<lambda>i. Finite (1469720108946391 / 2 ^ 62)))
       (sin4_vector (\<lambda>i. Finite 0) (\<lambda>i. Finite (1469720108946391 / 2 ^ 62))) 4 = Finite (1 / 2 ^ 64) \<and>
   in_range (Finite P4r) \<and>
   \<bar>1592262918131443 / 2 ^ 51 - sin P4r\<bar> \<le> 1 / 10 ^ 12 \<and>
   sin4_taylor (\<lambda>i. Finite 0) (\<lambda>i. Finite P4r) None None
     = Inr (sin4_vector (\<lambda>i. Finite 0) (\<lambda>i. Finite P4r)) \<and>
   err (sin4_reference (\<lambda>d. Finite (1592262918131443 / 2 ^ 51)) (\<lambda>i. Finite 0) (\<lambda>i. Finite P4r))
       (sin4_intrin NoSIMD (\<lambda>d. Finite (1592262918131443 / 2 ^ 51)) (\<lambda>i. Finite 0)
          (\<lambda>i. Finite P4r)) 4 = Finite 0 \<and>
   err (sin4_reference (\<lambda>d. Finite (1592262918131443 / 2 ^ 51)) (\<lambda>i. Finite 0) (\<lambda>i. Finite P4r))
       (sin4_vector (\<lambda>i. Finite 0) (\<lambda>i. Finite P4r)) 4 = Finite (31201 / 2 ^ 52)"
proof (intro conjI)
  show "in_range (Finite (1469720108946391 / 2 ^ 62))" by (simp add: in_range_Finite)
  show "in_range (Finite P4r)" by (simp add: in_range_Finite)
  show "\<bar>5878880336269501 / 2 ^ 64 - sin (1469720108946391 / 2 ^ 62 :: real)\<bar> \<le> 1 / 2 ^ 66"
    by (rule sin_small)
  show "\<bar>1592262918131443 / 2 ^ 51 - sin P4r\<bar> \<le> 1 / 10 ^ 12" by (rule ref_P4r)
  show "sin4_taylor (\<lambda>i. Finite 0) (\<lambda>i. Finite (1469720108946391 / 2 ^ 62)) None None
     = Inr (sin4_vector (\<lambda>i. Finite 0) (\<lambda>i. Finite (1469720108946391 / 2 ^ 62)))"
    by (simp only: sin4_taylor_nullptr sin4_vector_lanes)
  show "sin4_taylor (\<lambda>i. Finite 0) (\<lambda>i. Finite P4r) None None
     = Inr (sin4_vector (\<lambda>i. Finite 0) (\<lambda>i. Finite P4r))"
    by (simp only: sin4_taylor_nullptr sin4_vector_lanes)
  show "err (sin4_reference (\<lambda>d. Finite (5878880336269501 / 2 ^ 64)) (\<lambda>i. Finite 0)
          (\<lambda>i. Finite (1469720108946391 / 2 ^ 62)))
       (sin4_intrin AVX (\<lambda>d. Finite (5878880336269501 / 2 ^ 64)) (\<lambda>i. Finite 0)
          (\<lambda>i. Finite (1469720108946391 / 2 ^ 62))) 4 = Finite 0"
    unfolding sin4_reference_lanes sin4_intrin_AVX sine_poly3_small
    by (rule err_4_const[OF diff_self]) simp
  show "err (sin4_reference (\<lambda>d. Finite (5878880336269501 / 2 ^ 64)) (\<lambda>i. Finite 0)
          (\<lambda>i. Finite (1469720108946391 / 2 ^ 62)))
       (sin4_vector (\<lambda>i. Finite 0) (\<lambda>i. Finite (1469720108946391 / 2 ^ 62))) 4 = Finite (1 / 2 ^ 64)"
    unfolding sin4_reference_lanes sin4_vector_lanes sine_poly_small
    by (rule err_4_const[OF diff_small]) simp
  show "err (sin4_reference (\<lambda>d. Finite (1592262918131443 / 2 ^ 51)) (\<lambda>i. Finite 0) (\<lambda>i. Finite P4r))
       (sin4_intrin NoSIMD (\<lambda>d. Finite (1592262918131443 / 2 ^ 51)) (\<lambda>i. Finite 0)
          (\<lambda>i. Finite P4r)) 4 = Finite 0"
    unfolding sin4_intrin_def simd.case sin4_reference_lanes
    by (rule err_4_const[OF diff_self]) simp
  show "err (sin4_reference (\<lambda>d. Finite (1592262918131443 / 2 ^ 51)) (\<lambda>i. Finite 0) (\<lambda>i. Finite P4r))
       (sin4_vector (\<lambda>i. Finite 0) (\<lambda>i. Finite P4r)) 4 = Finite (31201 / 2 ^ 52)"
    unfolding sin4_reference_lanes sin4_vector_lanes sine_poly_P4
    by (rule err_4_const[OF diff_P4]) simp
qed

text \<open>
  C9, amended: when AVX or SSE2 is available, the four lanes of the batch lie in
  \<^verbatim>\<open>[-M_PI/4, M_PI/4]\<close>, at least one of them has magnitude \<open>1/32\<close> or more, and the
  reference sine is within \<open>10^-12\<close> of the sine on each lane, then the maximum error that
  \<^verbatim>\<open>err\<close> computes for \<^verbatim>\<open>sin4_intrin\<close> against the reference is at least the one it computes
  for \<^verbatim>\<open>sin4_taylor\<close> (called without selector array) and for \<^verbatim>\<open>sin4_vector\<close>.
\<close>

theorem intrinsic_error_dominates:
  assumes hw: "hw \<noteq> NoSIMD"
    and lanes: "\<forall>i<4. in_range (x i) \<and> accurate_at psin (1 / 10 ^ 12) (x i)"
    and big: "j < 4" "fle (Finite (1 / 32)) (fabs (x j))"
  shows "\<exists>tay. sin4_taylor t0 x sv None = Inr tay \<and>
      fle (err (sin4_reference psin r0 x) tay 4)
          (err (sin4_reference psin r0 x) (sin4_intrin hw psin i0 x) 4) \<and>
      fle (err (sin4_reference psin r0 x) (sin4_vector v0 x) 4)
          (err (sin4_reference psin r0 x) (sin4_intrin hw psin i0 x) 4)"
proof -
  define ref where "ref = sin4_reference psin r0 x"
  define int where "int = sin4_intrin hw psin i0 x"
  define tay where "tay = (\<lambda>i. if i < 4 then spec_sine_poly (x i) else t0 i)"
  define vec where "vec = sin4_vector v0 x"
  define X where "X i = fval (x i)" for i
  define Y where "Y i = fval (psin (x i))" for i
  define A11 where "A11 i = fval (spec_sine_poly (x i))" for i
  define A3 where "A3 i = fval (spec_sine_poly3 (x i))" for i
  define \<beta> where "\<beta> = round_real (1 / 10 ^ 10)"
  have \<beta>0: "0 \<le> \<beta>" unfolding \<beta>_def by (rule round_real_nonneg) simp
  have ref: "ref i = psin (x i)" if "i < 4" for i
    using that by (simp add: ref_def sin4_reference_lanes)
  have int: "int i = spec_sine_poly3 (x i)" if "i < 4" for i
    using that by (simp add: int_def sin4_intrin_simd[OF hw])
  have tay: "tay i = spec_sine_poly (x i)" if "i < 4" for i
    using that by (simp add: tay_def)
  have vec: "vec i = spec_sine_poly (x i)" if "i < 4" for i
    using that by (simp add: vec_def sin4_vector_lanes)
  have lane: "x i = Finite (X i) \<and> \<bar>X i\<bar> \<le> 4 / 5 \<and> psin (x i) = Finite (Y i) \<and>
      \<bar>Y i - sin (X i)\<bar> \<le> 1 / 10 ^ 12" if "i < 4" for i
  proof -
    from lanes that have r: "in_range (x i)" and a: "accurate_at psin (1 / 10 ^ 12) (x i)" by auto
    from a obtain u y where u: "x i = Finite u" "psin (x i) = Finite y" "\<bar>y - sin u\<bar> \<le> 1 / 10 ^ 12"
      by (rule accurate_atE)
    have "\<bar>u\<bar> \<le> P4r" using r unfolding u(1) in_range_Finite by (simp add: abs_if)
    then have "\<bar>u\<bar> \<le> 4 / 5" by simp
    then show ?thesis using u by (simp add: X_def Y_def)
  qed
  have lp: "psin (x i) = Finite (Y i)" if "i < 4" for i
    using lane[OF that] by blast
  have y2: "\<bar>Y i\<bar> \<le> 2" if "i < 4" for i
  proof -
    have "\<bar>Y i - 0\<bar> \<le> 1 / 10 ^ 12 + 1"
      by (rule abs_diff_chain[of _ "sin (X i)"]) (use lane[OF that] in simp_all)
    then show ?thesis by simp
  qed
  have l11: "spec_sine_poly (x i) = Finite (A11 i) \<and> \<bar>A11 i\<bar> \<le> 2 \<and> \<bar>Y i - A11 i\<bar> \<le> 1 / 10 ^ 10"
    if "i < 4" for i
  proof -
    from lane[OF that] have a: "\<bar>X i\<bar> \<le> 4 / 5" "\<bar>Y i - sin (X i)\<bar> \<le> 1 / 10 ^ 12"
      and x: "x i = Finite (X i)" by simp_all
    show ?thesis by (rule lane11[OF a]) (simp add: A11_def x)
  qed
  have l3: "spec_sine_poly3 (x i) = Finite (A3 i) \<and> \<bar>A3 i\<bar> \<le> 2 \<and>
      (1 / 32 \<le> \<bar>X i\<bar> \<longrightarrow> 1 / 10 ^ 10 \<le> \<bar>Y i - A3 i\<bar>)" if "i < 4" for i
  proof -
    from lane[OF that] have a: "\<bar>X i\<bar> \<le> 4 / 5" "\<bar>Y i - sin (X i)\<bar> \<le> 1 / 10 ^ 12"
      and x: "x i = Finite (X i)" by simp_all
    show ?thesis by (rule lane3[OF a]) (simp add: A3_def x)
  qed
  have d11: "fabs (fsub (ref i) (tay i)) = Finite (round_real \<bar>Y i - A11 i\<bar>)" if "i < 4" for i
  proof -
    have "ref i = Finite (Y i)" by (simp only: ref[OF that] lp[OF that])
    moreover have "spec_sine_poly (x i) = Finite (A11 i)" using l11[OF that] by blast
    then have "tay i = Finite (A11 i)" by (simp only: tay[OF that])
    moreover have "\<bar>Y i\<bar> \<le> 2" "\<bar>A11 i\<bar> \<le> 2" using y2[OF that] l11[OF that] by blast+
    ultimately show ?thesis by (simp only: lane_diff)
  qed
  have dv: "fabs (fsub (ref i) (vec i)) = Finite (round_real \<bar>Y i - A11 i\<bar>)" if "i < 4" for i
    using d11[OF that] by (simp only: tay[OF that] vec[OF that])
  have d3: "fabs (fsub (ref i) (int i)) = Finite (round_real \<bar>Y i - A3 i\<bar>)" if "i < 4" for i
  proof -
    have "ref i = Finite (Y i)" by (simp only: ref[OF that] lp[OF that])
    moreover have "spec_sine_poly3 (x i) = Finite (A3 i)" using l3[OF that] by blast
    then have "int i = Finite (A3 i)" by (simp only: int[OF that])
    moreover have "\<bar>Y i\<bar> \<le> 2" "\<bar>A3 i\<bar> \<le> 2" using y2[OF that] l3[OF that] by blast+
    ultimately show ?thesis by (simp only: lane_diff)
  qed
  let ?m11 = "max (max (max (max 0 (round_real \<bar>Y 0 - A11 0\<bar>)) (round_real \<bar>Y 1 - A11 1\<bar>))
      (round_real \<bar>Y 2 - A11 2\<bar>)) (round_real \<bar>Y 3 - A11 3\<bar>)"
  let ?m3 = "max (max (max (max 0 (round_real \<bar>Y 0 - A3 0\<bar>)) (round_real \<bar>Y 1 - A3 1\<bar>))
      (round_real \<bar>Y 2 - A3 2\<bar>)) (round_real \<bar>Y 3 - A3 3\<bar>)"
  have e11: "err ref tay 4 = Finite ?m11" by (rule err_4[OF d11])
  have ev: "err ref vec 4 = Finite ?m11" by (rule err_4[OF dv])
  have e3: "err ref int 4 = Finite ?m3" by (rule err_4[OF d3])
  have "?m11 \<le> \<beta>"
  proof (rule max4_le[OF _ \<beta>0])
    fix i :: nat assume "i < 4"
    then have "\<bar>Y i - A11 i\<bar> \<le> 1 / 10 ^ 10" using l11 by simp
    then show "round_real \<bar>Y i - A11 i\<bar> \<le> \<beta>" unfolding \<beta>_def by (rule round_real_mono)
  qed
  moreover have "\<beta> \<le> ?m3"
  proof (rule max4_ge[OF big(1)])
    have "1 / 32 \<le> \<bar>X j\<bar>" using big(2) lane[OF big(1)] by simp
    then have "1 / 10 ^ 10 \<le> \<bar>Y j - A3 j\<bar>" using l3[OF big(1)] by simp
    then show "\<beta> \<le> round_real \<bar>Y j - A3 j\<bar>" unfolding \<beta>_def by (rule round_real_mono)
  qed
  ultimately have "?m11 \<le> ?m3" by (rule order_trans)
  then have "fle (err ref tay 4) (err ref int 4)" "fle (err ref vec 4) (err ref int 4)"
    by (simp_all add: e11 ev e3)
  moreover have "sin4_taylor t0 x sv None = Inr tay" unfolding tay_def by (rule sin4_taylor_nullptr)
  ultimately show ?thesis unfolding ref_def int_def vec_def by blast
qed

theorem intrinsic_error_dominates_witness:
  "AVX \<noteq> NoSIMD \<and> in_range (Finite P4r) \<and>
   accurate_at (\<lambda>d. Finite (1592262918131443 / 2 ^ 51)) (1 / 10 ^ 12) (Finite P4r) \<and>
   fle (Finite (1 / 32)) (fabs (Finite P4r)) \<and>
   (\<exists>tay. sin4_taylor (\<lambda>i. Finite 0) (\<lambda>i. Finite P4r) None None = Inr tay \<and>
      fle (err (sin4_reference (\<lambda>d. Finite (1592262918131443 / 2 ^ 51)) (\<lambda>i. Finite 0) (\<lambda>i. Finite P4r)) tay 4)
          (err (sin4_reference (\<lambda>d. Finite (1592262918131443 / 2 ^ 51)) (\<lambda>i. Finite 0) (\<lambda>i. Finite P4r))
             (sin4_intrin AVX (\<lambda>d. Finite (1592262918131443 / 2 ^ 51)) (\<lambda>i. Finite 0) (\<lambda>i. Finite P4r)) 4) \<and>
      fle (err (sin4_reference (\<lambda>d. Finite (1592262918131443 / 2 ^ 51)) (\<lambda>i. Finite 0) (\<lambda>i. Finite P4r))
             (sin4_vector (\<lambda>i. Finite 0) (\<lambda>i. Finite P4r)) 4)
          (err (sin4_reference (\<lambda>d. Finite (1592262918131443 / 2 ^ 51)) (\<lambda>i. Finite 0) (\<lambda>i. Finite P4r))
             (sin4_intrin AVX (\<lambda>d. Finite (1592262918131443 / 2 ^ 51)) (\<lambda>i. Finite 0) (\<lambda>i. Finite P4r)) 4))"
proof -
  have r: "in_range (Finite P4r)" by (simp add: in_range_Finite)
  have a: "accurate_at (\<lambda>d. Finite (1592262918131443 / 2 ^ 51)) (1 / 10 ^ 12) (Finite P4r)"
    using ref_P4r by (simp add: accurate_at_def)
  have b: "fle (Finite (1 / 32)) (fabs (Finite P4r))" by simp
  have l: "\<forall>i<4::nat. in_range ((\<lambda>i. Finite P4r) i) \<and>
      accurate_at (\<lambda>d. Finite (1592262918131443 / 2 ^ 51)) (1 / 10 ^ 12) ((\<lambda>i. Finite P4r) i)"
    using r a by simp
  have h: "AVX \<noteq> NoSIMD" by simp
  show ?thesis
    using r a b h intrinsic_error_dominates[OF h l, of 0 "\<lambda>i. Finite 0" None "\<lambda>i. Finite 0"
        "\<lambda>i. Finite 0" "\<lambda>i. Finite 0"]
    by simp
qed

end
